theory Spec2Isabelle
  imports Main
begin

section \<open>The sieve generator of sieve.py\<close>

text \<open>
  Python exceptions that the modelled code can raise: \<open>ValueError\<close> (numpy refuses a
  negative array size, \<open>range\<close> refuses a zero step), \<open>IndexError\<close> (a list or array
  index out of range), \<open>KeyError\<close> (a missing dictionary key) and
  \<open>ZeroDivisionError\<close>.
\<close>

datatype py_error = ValueError | IndexError | KeyError | ZeroDivisionError

text \<open>
  One element of the animation sequence: the number and the tag \<open>''P''\<close> or \<open>''C''\<close>.
  The numbers the generator yields are indices plus two, hence naturals.
\<close>

type_synonym emission = "nat \<times> string"

definition TIME_AFTER_COMPLETION :: nat where
  "TIME_AFTER_COMPLETION = 35"

definition PADDING :: "emission list" where
  "PADDING = replicate TIME_AFTER_COMPLETION (1, ''C'')"

text \<open>
  The inner loop \<open>for i in range(prime**2 - 2, LIMIT - 2, prime)\<close> of \<open>primeSieve\<close>,
  started at index \<open>i\<close>: \<open>n\<close> is \<open>LIMIT - 2\<close>. Every index below \<open>n\<close> on the way is
  set in the sieve and yielded (plus two) with tag \<open>''C''\<close>, whether or not it was set
  before. Returns the sieve and the values yielded.
\<close>

function primeSieve_for :: "nat \<Rightarrow> nat \<Rightarrow> nat \<Rightarrow> bool list \<Rightarrow> py_error + (bool list \<times> emission list)" where
  "primeSieve_for n prime i sieve =
     (if prime = 0 then Inl ValueError
      else if i < n then
        (if i < length sieve then
           (case primeSieve_for n prime (i + prime) (sieve[i := True]) of
              Inl e \<Rightarrow> Inl e
            | Inr (sieve', out) \<Rightarrow> Inr (sieve', (i + 2, ''C'') # out))
         else Inl IndexError)
      else Inr (sieve, []))"
  by pat_completeness auto
termination
  by (relation "measure (\<lambda>(n, prime, i, sieve). n - i)") auto

declare primeSieve_for.simps [simp del]

text \<open>
  The outer loop \<open>while (startIndex < LIMIT - 2)\<close>, with \<open>n = LIMIT - 2\<close>: an index
  not set in the sieve is yielded (plus two) as \<open>''P''\<close>, followed at once by what its
  marking pass yields; the stride is 1 at index 0 and 2 afterwards.
\<close>

function primeSieve_while :: "nat \<Rightarrow> nat \<Rightarrow> bool list \<Rightarrow> py_error + emission list" where
  "primeSieve_while n startIndex sieve =
     (if startIndex < n then
        (if startIndex < length sieve then
           (if \<not> sieve ! startIndex then
              (let prime = startIndex + 2 in
               case primeSieve_for n prime (prime ^ 2 - 2) sieve of
                 Inl e \<Rightarrow> Inl e
               | Inr (sieve', marked) \<Rightarrow>
                   (case primeSieve_while n (startIndex + (if startIndex = 0 then 1 else 2)) sieve' of
                      Inl e \<Rightarrow> Inl e
                    | Inr out \<Rightarrow> Inr ((prime, ''P'') # marked @ out)))
            else primeSieve_while n (startIndex + (if startIndex = 0 then 1 else 2)) sieve)
         else Inl IndexError)
      else Inr [])"
  by pat_completeness auto
termination
  by (relation "measure (\<lambda>(n, startIndex, sieve). n - startIndex)") auto

declare primeSieve_while.simps [simp del]

text \<open>
  \<open>list(primeSieve(LIMIT))\<close>, the way the window consumes the generator: the whole
  sequence, or the exception that ends it. \<open>np.zeros(LIMIT - 2)\<close> raises \<open>ValueError\<close>
  for a negative size.
\<close>

definition primeSieve :: "int \<Rightarrow> py_error + emission list" where
  "primeSieve LIMIT =
     (if LIMIT - 2 < 0 then Inl ValueError
      else (case primeSieve_while (nat (LIMIT - 2)) 0 (replicate (nat (LIMIT - 2)) False) of
              Inl e \<Rightarrow> Inl e
            | Inr out \<Rightarrow> Inr ((1, ''C'') # out)))"


section \<open>The window: grid layout, key presses and the per-frame step\<close>

text \<open>
  \<open>drawNumbers\<close> places the numbers \<open>1 .. N\<^sup>2\<close>: \<open>x_coord\<close> is \<open>width / N\<close> times
  \<open>(number - 1) % N\<close>, and \<open>y_coord\<close> starts at the top and drops by \<open>y_decrement\<close>
  after every number divisible by \<open>N\<close>. The pixel values are floats; the model keeps the
  two integer multipliers of \<open>width / N\<close>: the column \<open>(number - 1) % N\<close> and the number
  of drops made so far. \<open>self.width / self.N\<close> raises \<open>ZeroDivisionError\<close> for \<open>N = 0\<close>.
\<close>

fun drawNumbers_loop :: "nat \<Rightarrow> nat list \<Rightarrow> nat \<Rightarrow> (nat \<rightharpoonup> nat \<times> nat) \<Rightarrow> (nat \<rightharpoonup> nat \<times> nat)" where
  "drawNumbers_loop N [] drops coordinate_info = coordinate_info"
| "drawNumbers_loop N (number # rest) drops coordinate_info =
     drawNumbers_loop N rest (if number mod N = 0 then drops + 1 else drops)
       (coordinate_info(number \<mapsto> ((number - 1) mod N, drops)))"

definition drawNumbers :: "nat \<Rightarrow> py_error + (nat \<rightharpoonup> nat \<times> nat)" where
  "drawNumbers N =
     (if N = 0 then Inl ZeroDivisionError
      else Inr (drawNumbers_loop N [1..<N ^ 2 + 1] 0 Map.empty))"

text \<open>
  A square of the grid: its cell (from \<open>drawNumbers\<close>), its colour and whether it is
  visible. Size and opacity are the same for all squares and left out.
\<close>

datatype colour = LIGHT_BLUE | RED

record square =
  cell :: "nat \<times> nat"
  color :: colour
  visible :: bool

text \<open>
  \<open>drawSquares\<close> appends one hidden light-blue square for each number \<open>1 .. N\<^sup>2\<close>;
  \<open>info[num]\<close> raises \<open>KeyError\<close> for a number without coordinates.
\<close>

fun drawSquares_loop :: "nat list \<Rightarrow> (nat \<rightharpoonup> nat \<times> nat) \<Rightarrow> square list \<Rightarrow> py_error + square list" where
  "drawSquares_loop [] info squares_list = Inr squares_list"
| "drawSquares_loop (num # rest) info squares_list =
     (case info num of
        None \<Rightarrow> Inl KeyError
      | Some xy \<Rightarrow>
          drawSquares_loop rest info
            (squares_list @ [\<lparr>cell = xy, color = LIGHT_BLUE, visible = False\<rparr>]))"

definition drawSquares :: "square list \<Rightarrow> nat \<Rightarrow> (nat \<rightharpoonup> nat \<times> nat) \<Rightarrow> py_error + square list" where
  "drawSquares squares_list N info = drawSquares_loop [1..<N ^ 2 + 1] info squares_list"

text \<open>
  The fields of \<open>mainWindow\<close> that the animation reads and writes; \<open>gridN\<close> is
  \<open>self.N\<close>, and \<open>closed\<close> records \<open>self.close()\<close>. The batches and the grid lines
  only feed the renderer and are left out.
\<close>

record mainWindow =
  gridN :: nat
  square_coords :: "nat \<rightharpoonup> nat \<times> nat"
  data :: "emission list"
  square_list :: "square list"
  currentIndex :: nat
  closed :: bool

text \<open>\<open>__init__\<close>: a 10 by 10 grid, its sequence followed by the padding, index 0.\<close>

definition init_window :: "py_error + mainWindow" where
  "init_window =
     (case drawNumbers 10 of
        Inl e \<Rightarrow> Inl e
      | Inr coords \<Rightarrow>
          (case primeSieve (10 ^ 2 + 1) of
             Inl e \<Rightarrow> Inl e
           | Inr sequence \<Rightarrow>
               (case drawSquares [] 10 coords of
                  Inl e \<Rightarrow> Inl e
                | Inr squares \<Rightarrow>
                    Inr \<lparr>gridN = 10, square_coords = coords, data = sequence @ PADDING,
                         square_list = squares, currentIndex = 0, closed = False\<rparr>)))"

text \<open>
  Modelled from the spec: the key codes of \<open>pyglet.window.key\<close> are not under src/. The
  spec fixes digit \<open>d\<close> to size \<open>d + 9\<close>; with the source's \<open>int(symbol) - 39\<close> that makes
  the code of digit \<open>d\<close> equal to \<open>48 + d\<close> (its ASCII code), and \<open>Q\<close> is the ASCII code
  of \<open>q\<close>.
\<close>

definition key_1 :: int where
  "key_1 = 49"

definition key_9 :: int where
  "key_9 = 57"

definition key_Q :: int where
  "key_Q = 113"

definition digit_key :: "nat \<Rightarrow> int" where
  "digit_key d = 48 + int d"

text \<open>
  \<open>on_key_press\<close>: \<open>Q\<close> closes the window; a digit key whose size differs from the
  current one rebuilds the grid, resets the index and recomputes the sequence.
\<close>

definition on_key_press :: "mainWindow \<Rightarrow> int \<Rightarrow> py_error + mainWindow" where
  "on_key_press self symbol =
     (let self1 = (if symbol = key_Q then self\<lparr>closed := True\<rparr> else self) in
      if key_1 \<le> symbol \<and> symbol \<le> key_9 \<and> symbol - 39 \<noteq> int (gridN self1) then
        (let N = nat (symbol - 39) in
         case drawNumbers N of
           Inl e \<Rightarrow> Inl e
         | Inr coords \<Rightarrow>
             (case drawSquares [] N coords of
                Inl e \<Rightarrow> Inl e
              | Inr squares \<Rightarrow>
                  (case primeSieve (int N ^ 2 + 1) of
                     Inl e \<Rightarrow> Inl e
                   | Inr sequence \<Rightarrow>
                       Inr (self1\<lparr>gridN := N, square_coords := coords, square_list := squares,
                                  currentIndex := 0, data := sequence @ PADDING\<rparr>))))
      else Inr self1)"

text \<open>
  The list position that Python reads for \<open>square_list[currentNum - 1]\<close> in a list of
  \<open>len\<close> squares: index \<open>-1\<close> (for \<open>currentNum = 0\<close>) is the last element, and a position
  outside the list raises \<open>IndexError\<close>.
\<close>

definition square_index :: "nat \<Rightarrow> nat \<Rightarrow> py_error + nat" where
  "square_index currentNum len =
     (if currentNum = 0 then (if len = 0 then Inl IndexError else Inr (len - 1))
      else if currentNum - 1 < len then Inr (currentNum - 1)
      else Inl IndexError)"

text \<open>
  Lines 163 to 165 of \<open>on_draw\<close>: the square of the current sequence element becomes
  visible, light blue for \<open>''C''\<close> and red otherwise.
\<close>

definition reveal :: "mainWindow \<Rightarrow> py_error + square list" where
  "reveal self =
     (if currentIndex self < length (data self) then
        (case data self ! currentIndex self of
           (currentNum, type) \<Rightarrow>
             (case square_index currentNum (length (square_list self)) of
                Inl e \<Rightarrow> Inl e
              | Inr k \<Rightarrow>
                  Inr ((square_list self)
                        [k := (square_list self ! k)
                           \<lparr>visible := True,
                            color := (if type = ''C'' then LIGHT_BLUE else RED)\<rparr>])))
      else Inl IndexError)"

text \<open>
  \<open>on_draw\<close>, the step taken once per frame: reveal, advance the index, and at the end
  of the data go back to index 0 with a fresh list of hidden squares.
\<close>

definition on_draw :: "mainWindow \<Rightarrow> py_error + mainWindow" where
  "on_draw self =
     (case reveal self of
        Inl e \<Rightarrow> Inl e
      | Inr squares \<Rightarrow>
          (let self1 = self\<lparr>square_list := squares, currentIndex := currentIndex self + 1\<rparr> in
           if currentIndex self1 = length (data self1) then
             (case drawSquares [] (gridN self1) (square_coords self1) of
                Inl e \<Rightarrow> Inl e
              | Inr hidden \<Rightarrow> Inr (self1\<lparr>currentIndex := 0, square_list := hidden\<rparr>))
           else Inr self1))"

text \<open>\<open>on_draw\<close> called \<open>k\<close> times in a row, stopping at the first exception.\<close>

fun on_draw_times :: "nat \<Rightarrow> mainWindow \<Rightarrow> py_error + mainWindow" where
  "on_draw_times 0 self = Inr self"
| "on_draw_times (Suc k) self =
     (case on_draw self of Inl e \<Rightarrow> Inl e | Inr self1 \<Rightarrow> on_draw_times k self1)"

text \<open>
  The driver: each flag is an integer or absent (then its default applies), and both
  values are clamped. Returns \<open>(DIMENSIONS, FRAME_RATE)\<close>.
\<close>

definition launch :: "int option \<Rightarrow> int option \<Rightarrow> int \<times> int" where
  "launch frame_rate dimensions =
     (let frame_rate_arg = (case frame_rate of None \<Rightarrow> 12 | Some f \<Rightarrow> f);
          dimensions_arg = (case dimensions of None \<Rightarrow> 800 | Some d \<Rightarrow> d);
          DIMENSIONS = min (max 800 dimensions_arg) 2000;
          FRAME_RATE = min (max 10 frame_rate_arg) 40
      in (DIMENSIONS, FRAME_RATE))"

section \<open>Vocabulary of the properties\<close>

text \<open>
  A number has a divisor other than 1 and itself; for a positive number the candidates
  lie between 2 and the number (lemma \<open>has_other_divisor_iff\<close>).
\<close>

definition has_other_divisor :: "nat \<Rightarrow> bool" where
  "has_other_divisor v = (\<exists>d\<in>{2..<v}. d dvd v)"

definition is_prime :: "nat \<Rightarrow> bool" where
  "is_prime v = (2 \<le> v \<and> \<not> has_other_divisor v)"

text \<open>
  What one prime contributes to the sequence: itself as \<open>''P''\<close>, then its multiples
  from its square up to the limit as \<open>''C''\<close>. The whole sequence in closed form is 1,
  then the contribution of each prime below the limit in ascending order.
\<close>

definition marking_pass :: "nat \<Rightarrow> nat \<Rightarrow> emission list" where
  "marking_pass LIMIT p = (p, ''P'') # map (\<lambda>m. (m, ''C'')) (filter (\<lambda>m. p dvd m) [p * p..<LIMIT])"

definition sieve_order :: "nat \<Rightarrow> emission list" where
  "sieve_order LIMIT = (1, ''C'') # concat (map (marking_pass LIMIT) (filter is_prime [2..<LIMIT]))"

text \<open>
  The loop invariant of the outer scan at index \<open>s\<close>: the sieve has its length, the scan
  is at index 0 or at an odd index, and an index is set exactly when its number has a
  divisor \<open>q\<close> below the scan position with \<open>q\<^sup>2\<close> at most the number.
\<close>

definition sieve_inv :: "nat \<Rightarrow> nat \<Rightarrow> bool list \<Rightarrow> bool" where
  "sieve_inv n s sieve =
     (length sieve = n \<and> (s = 0 \<or> odd s) \<and>
      (\<forall>j<n. sieve ! j = (\<exists>q. 2 \<le> q \<and> q < s + 2 \<and> q * q \<le> j + 2 \<and> q dvd (j + 2))))"

text \<open>
  The square list right after \<open>drawSquares\<close> on an empty list (all hidden), and the one
  with every square visible, red for the primes and light blue for the rest.
\<close>

definition hidden_squares :: "nat \<Rightarrow> square list" where
  "hidden_squares N =
     map (\<lambda>v. \<lparr>cell = ((v - 1) mod N, (v - 1) div N), color = LIGHT_BLUE, visible = False\<rparr>)
       [1..<N ^ 2 + 1]"

definition full_grid :: "nat \<Rightarrow> square list" where
  "full_grid N =
     map (\<lambda>v. \<lparr>cell = ((v - 1) mod N, (v - 1) div N),
               color = (if is_prime v then RED else LIGHT_BLUE), visible = True\<rparr>)
       [1..<N ^ 2 + 1]"

text \<open>
  What lines 164 and 165 do to one square, and the squares after the elements of a list
  have been revealed one after the other.
\<close>

definition shown :: "string \<Rightarrow> square \<Rightarrow> square" where
  "shown type sq = sq\<lparr>visible := True, color := (if type = ''C'' then LIGHT_BLUE else RED)\<rparr>"

definition reveal_all :: "emission list \<Rightarrow> square list \<Rightarrow> square list" where
  "reveal_all es squares = foldl (\<lambda>sl (v, type). sl[v - 1 := shown type (sl ! (v - 1))]) squares es"

text \<open>
  The state in which \<open>__init__\<close> and a size change leave the window: index 0, the
  coordinates and hidden squares of the grid, and the sequence of the grid followed by
  the padding.
\<close>

definition start_state :: "mainWindow \<Rightarrow> bool" where
  "start_state w =
     (0 < gridN w \<and> currentIndex w = 0 \<and>
      drawNumbers (gridN w) = Inr (square_coords w) \<and>
      square_list w = hidden_squares (gridN w) \<and>
      data w = sieve_order (gridN w ^ 2 + 1) @ PADDING)"

section \<open>The inner loop, the loop invariant and the closed form\<close>

lemma filter_upt_no_multiple:
  assumes "b \<le> a + prime"
  shows "filter (\<lambda>j. prime dvd (j - a)) [Suc a..<b] = []"
proof -
  have "\<not> prime dvd (j - a)" if "j \<in> set [Suc a..<b]" for j
  proof -
    from that assms have "0 < j - a" "j - a < prime" by auto
    then show ?thesis by (auto dest: dvd_imp_le)
  qed
  then show ?thesis by (simp add: filter_empty_conv)
qed

lemma dvd_diff_shift:
  fixes prime :: nat
  assumes "a + prime \<le> j"
  shows "(prime dvd (j - (a + prime))) = (prime dvd (j - a))"
proof -
  from assms have "j - a = (j - (a + prime)) + prime" by simp
  then show ?thesis by (metis dvd_add_triv_right_iff)
qed

lemma filter_upt_next_multiple:
  assumes "0 < prime"
  shows "filter (\<lambda>j. prime dvd (j - a)) [Suc a..<n] = filter (\<lambda>j. prime dvd (j - (a + prime))) [a + prime..<n]"
proof (cases "a + prime \<le> n")
  case True
  from True obtain k where n: "n = (a + prime) + k"
    using le_Suc_ex by blast
  have "Suc a \<le> a + prime" using assms by simp
  then have split: "[Suc a..<n] = [Suc a..<a + prime] @ [a + prime..<n]"
    unfolding n by (rule upt_add_eq_append)
  have shift: "filter (\<lambda>j. prime dvd (j - a)) [a + prime..<n] = filter (\<lambda>j. prime dvd (j - (a + prime))) [a + prime..<n]"
  proof (rule filter_cong[OF refl])
    fix j assume "j \<in> set [a + prime..<n]"
    then have "a + prime \<le> j" by simp
    then show "(prime dvd (j - a)) = (prime dvd (j - (a + prime)))"
      by (simp add: dvd_diff_shift)
  qed
  show ?thesis
    by (simp add: split filter_upt_no_multiple shift)
next
  case False
  then show ?thesis by (simp add: filter_upt_no_multiple)
qed

lemma primeSieve_for_result:
  assumes "0 < prime" and "length sieve = n"
  shows "\<exists>sieve'. primeSieve_for n prime i sieve
            = Inr (sieve', map (\<lambda>j. (j + 2, ''C'')) (filter (\<lambda>j. prime dvd (j - i)) [i..<n]))
          \<and> length sieve' = n
          \<and> (\<forall>j<n. sieve' ! j = (sieve ! j \<or> (i \<le> j \<and> prime dvd (j - i))))"
  using assms
proof (induction n prime i sieve rule: primeSieve_for.induct)
  case (1 n prime i sieve)
  show ?case
  proof (cases "i < n")
    case False
    then show ?thesis using "1.prems"
      by (subst primeSieve_for.simps) auto
  next
    case True
    with "1.prems" have len: "i < length sieve" by simp
    from "1.IH"[OF _ True len] "1.prems"
    obtain sieve' where
      rec: "primeSieve_for n prime (i + prime) (sieve[i := True])
            = Inr (sieve', map (\<lambda>j. (j + 2, ''C'')) (filter (\<lambda>j. prime dvd (j - (i + prime))) [i + prime..<n]))"
      and len': "length sieve' = n"
      and marks: "\<forall>j<n. sieve' ! j = (sieve[i := True] ! j \<or> (i + prime \<le> j \<and> prime dvd (j - (i + prime))))"
      by auto
    have lst: "filter (\<lambda>j. prime dvd (j - i)) [i..<n]
        = i # filter (\<lambda>j. prime dvd (j - (i + prime))) [i + prime..<n]"
      using True "1.prems"(1) by (simp add: upt_conv_Cons filter_upt_next_multiple)
    have eq: "primeSieve_for n prime i sieve
        = Inr (sieve', map (\<lambda>j. (j + 2, ''C'')) (filter (\<lambda>j. prime dvd (j - i)) [i..<n]))"
      using True len "1.prems"(1) rec by (subst primeSieve_for.simps) (simp add: lst)
    have "sieve' ! j = (sieve ! j \<or> (i \<le> j \<and> prime dvd (j - i)))" if "j < n" for j
    proof (cases "j = i")
      case True
      with that marks len show ?thesis by simp
    next
      case False
      have "(i + prime \<le> j \<and> prime dvd (j - (i + prime))) = (i \<le> j \<and> prime dvd (j - i))"
      proof (cases "i + prime \<le> j")
        case True
        then show ?thesis by (simp add: dvd_diff_shift)
      next
        case False
        with "1.prems"(1) have "j - i < prime" by simp
        with False \<open>j \<noteq> i\<close> show ?thesis by (auto dest: dvd_imp_le)
      qed
      with that marks False show ?thesis by simp
    qed
    with eq len' show ?thesis by blast
  qed
qed

lemma has_other_divisor_iff:
  "0 < v \<Longrightarrow> has_other_divisor v = (\<exists>d. d dvd v \<and> d \<noteq> 1 \<and> d \<noteq> v)"
proof
  assume "has_other_divisor v"
  then show "\<exists>d. d dvd v \<and> d \<noteq> 1 \<and> d \<noteq> v"
    by (auto simp: has_other_divisor_def)
next
  assume v: "0 < v" and "\<exists>d. d dvd v \<and> d \<noteq> 1 \<and> d \<noteq> v"
  then obtain d where d: "d dvd v" "d \<noteq> 1" "d \<noteq> v" by blast
  from d(1) v have "d \<le> v" "0 < d" by (auto dest: dvd_imp_le intro: Nat.gr0I)
  with d have "d \<in> {2..<v}" by auto
  with d(1) show "has_other_divisor v" by (auto simp: has_other_divisor_def)
qed

lemma small_divisor:
  fixes v :: nat
  assumes "d dvd v" "2 \<le> d" "d < v"
  shows "\<exists>q. 2 \<le> q \<and> q * q \<le> v \<and> q dvd v \<and> q \<le> d"
proof -
  from assms(1) obtain k where k: "v = d * k" by (auto simp: dvd_def)
  with assms have k2: "2 \<le> k"
    by (cases k) (auto simp: Suc_le_eq)
  show ?thesis
  proof (cases "d \<le> k")
    case True
    then have "d * d \<le> v" unfolding k by simp
    with assms show ?thesis by blast
  next
    case False
    then have "k * k \<le> v" "k \<le> d" unfolding k by simp_all
    moreover have "k dvd v" unfolding k by simp
    ultimately show ?thesis using k2 by blast
  qed
qed

lemma unmarked_is_prime:
  assumes "sieve_inv n s sieve" "s < n" "\<not> sieve ! s"
  shows "is_prime (s + 2)"
proof -
  have "\<not> d dvd (s + 2)" if "d \<in> {2..<s + 2}" for d
  proof
    assume "d dvd (s + 2)"
    with that small_divisor[of d "s + 2"] obtain q where
      "2 \<le> q" "q * q \<le> s + 2" "q dvd (s + 2)" "q \<le> d" by auto
    with that assms show False by (auto simp: sieve_inv_def)
  qed
  then show ?thesis by (auto simp: is_prime_def has_other_divisor_def)
qed

lemma marked_not_prime:
  assumes "sieve_inv n s sieve" "s < n" "sieve ! s"
  shows "\<not> is_prime (s + 2)"
  using assms by (auto simp: sieve_inv_def is_prime_def has_other_divisor_def)

lemma even_not_prime: "even v \<Longrightarrow> 4 \<le> v \<Longrightarrow> \<not> is_prime v"
  by (auto simp: is_prime_def has_other_divisor_def intro!: bexI[of _ 2])

lemma primes_from_next:
  assumes "s < n" "s = 0 \<or> odd s"
  shows "filter is_prime [s + 2..<n + 2]
       = (if is_prime (s + 2) then [s + 2] else []) @ filter is_prime [s + (if s = 0 then 1 else 2) + 2..<n + 2]"
proof -
  have cons: "[s + 2..<n + 2] = (s + 2) # [Suc (s + 2)..<n + 2]"
    using assms(1) by (intro upt_conv_Cons) simp
  have skip: "filter is_prime [Suc (s + 2)..<n + 2]
            = filter is_prime [s + (if s = 0 then 1 else 2) + 2..<n + 2]"
  proof (cases "s = 0")
    case True
    then have "s + (if s = 0 then 1 else 2) + 2 = Suc (s + 2)" by simp
    then show ?thesis by (simp only:)
  next
    case False
    with assms have "odd s" "1 \<le> s" by simp_all
    then have np: "\<not> is_prime (Suc (s + 2))" by (intro even_not_prime) auto
    have idx: "s + (if s = 0 then 1 else 2) + 2 = Suc (Suc (s + 2))"
      using False by simp
    show ?thesis
    proof (cases "Suc (s + 2) < n + 2")
      case True
      then have "[Suc (s + 2)..<n + 2] = Suc (s + 2) # [Suc (Suc (s + 2))..<n + 2]"
        by (rule upt_conv_Cons)
      with np show ?thesis by (simp only: idx filter.simps if_False)
    next
      case False
      then have "[Suc (s + 2)..<n + 2] = []" "[Suc (Suc (s + 2))..<n + 2] = []" by simp_all
      then show ?thesis by (simp only: idx)
    qed
  qed
  show ?thesis
    by (simp only: cons skip[symmetric] filter.simps split: if_split) simp
qed

lemma small_factor_step:
  fixes s v :: nat
  assumes "s = 0 \<or> odd s"
  shows "(\<exists>q. 2 \<le> q \<and> q < s + (if s = 0 then 1 else 2) + 2 \<and> q * q \<le> v \<and> q dvd v)
       = ((\<exists>q. 2 \<le> q \<and> q < s + 2 \<and> q * q \<le> v \<and> q dvd v) \<or> ((s + 2) * (s + 2) \<le> v \<and> (s + 2) dvd v))"
    (is "?L = (?A \<or> ?B)")
proof
  assume ?L
  then obtain q where q: "2 \<le> q" "q < s + (if s = 0 then 1 else 2) + 2" "q * q \<le> v" "q dvd v"
    by blast
  have "q < s + 2 \<or> q = s + 2 \<or> (s \<noteq> 0 \<and> q = s + 3)"
  proof (cases "s = 0")
    case True
    with q(2) have "q < 3" by simp
    with True show ?thesis by arith
  next
    case False
    with q(2) have "q < s + 4" by simp
    with False show ?thesis by arith
  qed
  then consider "q < s + 2" | "q = s + 2" | "s \<noteq> 0" "q = s + 3"
    by blast
  then show "?A \<or> ?B"
  proof cases
    case 1
    with q show ?thesis by blast
  next
    case 2
    with q show ?thesis by blast
  next
    case 3
    with assms have "odd s" "1 \<le> s" by simp_all
    with 3 have "even q" by simp
    from this q(4) have "2 dvd v" by (rule dvd_trans)
    moreover have "2 * 2 \<le> q * q" using q(1) by (intro mult_le_mono) simp_all
    with q(3) have "(2::nat) * 2 \<le> v" by simp
    ultimately have ?A using \<open>1 \<le> s\<close> by (intro exI[of _ 2]) simp
    then show ?thesis ..
  qed
next
  assume "?A \<or> ?B"
  then show ?L
  proof
    assume ?A
    then obtain q where "2 \<le> q" "q < s + 2" "q * q \<le> v" "q dvd v" by blast
    then show ?L by (intro exI[of _ q]) simp
  next
    assume ?B
    then show ?L by (intro exI[of _ "s + 2"]) simp
  qed
qed

lemma two_le_square:
  fixes p :: nat
  assumes "2 \<le> p"
  shows "2 \<le> p * p"
proof -
  have "2 * 1 \<le> p * p" using assms by (intro mult_le_mono) simp_all
  then show ?thesis by simp
qed

lemma dvd_index_value:
  fixes p j :: nat
  assumes "2 \<le> p"
  shows "(p ^ 2 - 2 \<le> j \<and> p dvd (j - (p ^ 2 - 2))) = (p * p \<le> j + 2 \<and> p dvd (j + 2))"
proof -
  note p2 = two_le_square[OF assms]
  show ?thesis
  proof (cases "p * p \<le> j + 2")
    case True
    with p2 have a: "p * p - 2 \<le> j" by arith
    from True p2 have "j + 2 = (j - (p * p - 2)) + p * p" by arith
    then have "(p dvd (j + 2)) = (p dvd (j - (p * p - 2)))"
      by (metis dvd_add_left_iff dvd_triv_left)
    with True a show ?thesis unfolding power2_eq_square by blast
  next
    case False
    with p2 have "\<not> p * p - 2 \<le> j" by arith
    with False show ?thesis unfolding power2_eq_square by blast
  qed
qed

lemma upt_shift2:
  assumes "2 \<le> a"
  shows "[a..<n + 2] = map (\<lambda>j. j + 2) [a - 2..<n]"
proof -
  have "map (\<lambda>j. j + 2) [a - 2..<n] = map Suc (map Suc [a - 2..<n])" by simp
  also have "\<dots> = [Suc (Suc (a - 2))..<Suc (Suc n)]" by (simp only: map_Suc_upt)
  finally have "map (\<lambda>j. j + 2) [a - 2..<n] = [Suc (Suc (a - 2))..<Suc (Suc n)]" .
  moreover from assms have "Suc (Suc (a - 2)) = a" by simp
  moreover have "Suc (Suc n) = n + 2" by simp
  ultimately show ?thesis by (simp only:)
qed

lemma inv_after_pass:
  assumes inv: "sieve_inv n s sieve" and "s < n" "\<not> sieve ! s"
    and len: "length sieve' = n"
    and marks: "\<forall>j<n. sieve' ! j = (sieve ! j \<or> ((s + 2) ^ 2 - 2 \<le> j \<and> (s + 2) dvd (j - ((s + 2) ^ 2 - 2))))"
  shows "sieve_inv n (s + (if s = 0 then 1 else 2)) sieve'"
proof -
  from inv have par: "s = 0 \<or> odd s" by (simp add: sieve_inv_def)
  have "sieve' ! j = (\<exists>q. 2 \<le> q \<and> q < s + (if s = 0 then 1 else 2) + 2 \<and> q * q \<le> j + 2 \<and> q dvd (j + 2))"
    if "j < n" for j
  proof -
    have "2 \<le> s + 2" by simp
    note dvd_index_value[OF this, of j]
    with that marks have "sieve' ! j = (sieve ! j \<or> ((s + 2) * (s + 2) \<le> j + 2 \<and> (s + 2) dvd (j + 2)))"
      by blast
    also have "sieve ! j = (\<exists>q. 2 \<le> q \<and> q < s + 2 \<and> q * q \<le> j + 2 \<and> q dvd (j + 2))"
      using inv that by (simp add: sieve_inv_def)
    finally show ?thesis by (simp only: small_factor_step[OF par])
  qed
  moreover have "s + (if s = 0 then 1 else 2) = 0 \<or> odd (s + (if s = 0 then 1 else 2))"
    using par by auto
  ultimately show ?thesis using len by (simp add: sieve_inv_def)
qed

lemma inv_skip:
  assumes inv: "sieve_inv n s sieve" and "s < n" "sieve ! s"
  shows "sieve_inv n (s + (if s = 0 then 1 else 2)) sieve"
proof -
  from inv have par: "s = 0 \<or> odd s" by (simp add: sieve_inv_def)
  from assms obtain q0 where q0: "2 \<le> q0" "q0 < s + 2" "q0 dvd (s + 2)"
    by (auto simp: sieve_inv_def)
  have "sieve ! j = (\<exists>q. 2 \<le> q \<and> q < s + (if s = 0 then 1 else 2) + 2 \<and> q * q \<le> j + 2 \<and> q dvd (j + 2))"
    if "j < n" for j
  proof -
    have old: "sieve ! j = (\<exists>q. 2 \<le> q \<and> q < s + 2 \<and> q * q \<le> j + 2 \<and> q dvd (j + 2))"
      using inv that by (simp add: sieve_inv_def)
    have "\<exists>q. 2 \<le> q \<and> q < s + 2 \<and> q * q \<le> j + 2 \<and> q dvd (j + 2)"
      if B: "(s + 2) * (s + 2) \<le> j + 2" "(s + 2) dvd (j + 2)"
    proof -
      have "q0 * q0 \<le> (s + 2) * (s + 2)" using q0(2) by (intro mult_le_mono) simp_all
      with B(1) have "q0 * q0 \<le> j + 2" by simp
      moreover from q0(3) B(2) have "q0 dvd (j + 2)" by (rule dvd_trans)
      ultimately show ?thesis using q0 by blast
    qed
    then show ?thesis
      unfolding small_factor_step[OF par] old by blast
  qed
  moreover have "s + (if s = 0 then 1 else 2) = 0 \<or> odd (s + (if s = 0 then 1 else 2))"
    using par by auto
  ultimately show ?thesis using inv by (simp add: sieve_inv_def)
qed

lemma pass_values:
  assumes "2 \<le> p"
  shows "map (\<lambda>j. (j + 2, ''C'')) (filter (\<lambda>j. p dvd (j - (p ^ 2 - 2))) [p ^ 2 - 2..<n])
       = map (\<lambda>m. (m, ''C'')) (filter (\<lambda>m. p dvd m) [p * p..<n + 2])"
proof -
  have "[p * p..<n + 2] = map (\<lambda>j. j + 2) [p * p - 2..<n]"
    using two_le_square[OF assms] by (rule upt_shift2)
  moreover have "filter (\<lambda>j. p dvd (j - (p ^ 2 - 2))) [p ^ 2 - 2..<n]
      = filter (\<lambda>j. p dvd (j + 2)) [p ^ 2 - 2..<n]"
  proof (rule filter_cong[OF refl])
    fix j assume "j \<in> set [p ^ 2 - 2..<n]"
    then have a: "p ^ 2 - 2 \<le> j" by simp
    then have "p * p \<le> j + 2" unfolding power2_eq_square by arith
    with a dvd_index_value[OF assms, of j]
    show "(p dvd (j - (p ^ 2 - 2))) = (p dvd (j + 2))" by blast
  qed
  ultimately show ?thesis
    by (simp add: filter_map comp_def power2_eq_square del: upt_Suc)
qed

lemma primeSieve_while_closed:
  assumes "sieve_inv n s sieve"
  shows "primeSieve_while n s sieve
       = Inr (concat (map (marking_pass (n + 2)) (filter is_prime [s + 2..<n + 2])))"
  using assms
proof (induction "n - s" arbitrary: s sieve rule: less_induct)
  case less
  let ?s' = "s + (if s = 0 then 1 else 2)"
  from less.prems have len: "length sieve = n" and par: "s = 0 \<or> odd s"
    by (simp_all add: sieve_inv_def)
  show ?case
  proof (cases "s < n")
    case False
    then show ?thesis by (subst primeSieve_while.simps) simp
  next
    case True
    then have dec: "n - ?s' < n - s" by auto
    show ?thesis
    proof (cases "sieve ! s")
      case True
      from inv_skip[OF less.prems \<open>s < n\<close> True]
      have "primeSieve_while n ?s' sieve
          = Inr (concat (map (marking_pass (n + 2)) (filter is_prime [?s' + 2..<n + 2])))"
        by (rule less.hyps[OF dec])
      moreover have "primeSieve_while n s sieve = primeSieve_while n ?s' sieve"
        by (subst primeSieve_while.simps)
           (simp only: \<open>s < n\<close> len True if_True if_False not_True_eq_False)
      ultimately show ?thesis
        using marked_not_prime[OF less.prems \<open>s < n\<close> True]
        by (simp only: primes_from_next[OF \<open>s < n\<close> par] if_False append_Nil)
    next
      case False
      from primeSieve_for_result[of "s + 2" sieve n "(s + 2) ^ 2 - 2"] len
      obtain sieve' where
        pass: "primeSieve_for n (s + 2) ((s + 2) ^ 2 - 2) sieve
             = Inr (sieve', map (\<lambda>j. (j + 2, ''C''))
                     (filter (\<lambda>j. (s + 2) dvd (j - ((s + 2) ^ 2 - 2))) [(s + 2) ^ 2 - 2..<n]))"
        and len': "length sieve' = n"
        and marks: "\<forall>j<n. sieve' ! j = (sieve ! j \<or> ((s + 2) ^ 2 - 2 \<le> j \<and> (s + 2) dvd (j - ((s + 2) ^ 2 - 2))))"
        by auto
      from inv_after_pass[OF less.prems \<open>s < n\<close> False len' marks]
      have rest: "primeSieve_while n ?s' sieve'
          = Inr (concat (map (marking_pass (n + 2)) (filter is_prime [?s' + 2..<n + 2])))"
        by (rule less.hyps[OF dec])
      have "2 \<le> s + 2" by simp
      note vals = pass_values[OF this, of n]
      have "primeSieve_while n s sieve
          = (case primeSieve_for n (s + 2) ((s + 2) ^ 2 - 2) sieve of
               Inl e \<Rightarrow> Inl e
             | Inr (sieve', marked) \<Rightarrow>
                 (case primeSieve_while n ?s' sieve' of
                    Inl e \<Rightarrow> Inl e
                  | Inr out \<Rightarrow> Inr ((s + 2, ''P'') # marked @ out)))"
        by (subst primeSieve_while.simps)
           (simp only: \<open>s < n\<close> len False if_True Let_def not_False_eq_True)
      also have "\<dots> = Inr ((s + 2, ''P'') # map (\<lambda>m. (m, ''C'')) (filter (\<lambda>m. (s + 2) dvd m) [(s + 2) * (s + 2)..<n + 2])
                 @ concat (map (marking_pass (n + 2)) (filter is_prime [?s' + 2..<n + 2])))"
        by (simp only: pass rest vals sum.case prod.case)
      finally have "primeSieve_while n s sieve
          = Inr ((s + 2, ''P'') # map (\<lambda>m. (m, ''C'')) (filter (\<lambda>m. (s + 2) dvd m) [(s + 2) * (s + 2)..<n + 2])
                 @ concat (map (marking_pass (n + 2)) (filter is_prime [?s' + 2..<n + 2])))" .
      then show ?thesis
        using unmarked_is_prime[OF less.prems \<open>s < n\<close> False]
        by (simp only: primes_from_next[OF \<open>s < n\<close> par] if_True marking_pass_def
              append.simps list.map concat.simps)
    qed
  qed
qed

lemma sieve_inv_initial: "sieve_inv n 0 (replicate n False)"
  by (auto simp: sieve_inv_def)

lemma primeSieve_closed:
  assumes "2 \<le> LIMIT"
  shows "primeSieve LIMIT = Inr (sieve_order (nat LIMIT))"
proof -
  define n where "n = nat (LIMIT - 2)"
  from assms have n2: "n + 2 = nat LIMIT" by (simp add: n_def)
  have "primeSieve_while n 0 (replicate n False)
      = Inr (concat (map (marking_pass (nat LIMIT)) (filter is_prime [2..<nat LIMIT])))"
    using primeSieve_while_closed[OF sieve_inv_initial, of n] by (simp only: n2 add_0)
  moreover have "\<not> LIMIT - 2 < 0" using assms by simp
  ultimately show ?thesis
    by (simp only: primeSieve_def n_def if_False sum.case sieve_order_def)
qed

section \<open>Facts about the sequence in closed form\<close>

lemma is_prime_ge2: "is_prime p \<Longrightarrow> 2 \<le> p"
  by (simp add: is_prime_def)

lemma square_factor_less:
  fixes p m :: nat
  assumes "2 \<le> p" "p * p \<le> m"
  shows "p < m"
proof -
  have "p * 2 \<le> p * p" using assms(1) by (rule mult_le_mono2)
  with assms show ?thesis by linarith
qed

lemma set_marking_pass:
  "set (marking_pass L p) = {(p, ''P'')} \<union> {(m, ''C'') | m. p * p \<le> m \<and> m < L \<and> p dvd m}"
  by (auto simp: marking_pass_def)

lemma set_sieve_order:
  "set (sieve_order L) = {(1, ''C'')}
     \<union> {(p, ''P'') | p. is_prime p \<and> p < L}
     \<union> {(m, ''C'') | m p. is_prime p \<and> p < L \<and> p * p \<le> m \<and> m < L \<and> p dvd m}"
  by (auto simp: sieve_order_def set_marking_pass dest: is_prime_ge2)

lemma least_prime_factor:
  assumes "2 \<le> v" "has_other_divisor v"
  shows "\<exists>p. is_prime p \<and> p dvd v \<and> p * p \<le> v \<and> (\<forall>q. 2 \<le> q \<and> q dvd v \<longrightarrow> p \<le> q)"
proof -
  define p where "p = (LEAST d. 2 \<le> d \<and> d dvd v)"
  from assms(2) obtain d0 where d0: "2 \<le> d0" "d0 < v" "d0 dvd v"
    by (auto simp: has_other_divisor_def)
  then have ex: "2 \<le> d0 \<and> d0 dvd v" by simp
  from LeastI[of "\<lambda>d. 2 \<le> d \<and> d dvd v", OF ex]
  have p: "2 \<le> p" "p dvd v" by (simp_all add: p_def)
  have least: "p \<le> q" if "2 \<le> q \<and> q dvd v" for q
    unfolding p_def using that by (rule Least_le)
  from least[OF ex] d0 have "p < v" by simp
  have "\<not> has_other_divisor p"
  proof
    assume "has_other_divisor p"
    then obtain e where e: "2 \<le> e" "e < p" "e dvd p" by (auto simp: has_other_divisor_def)
    from e(3) p(2) have "e dvd v" by (rule dvd_trans)
    with e(1) least[of e] e(2) show False by simp
  qed
  with p(1) have "is_prime p" by (simp add: is_prime_def)
  moreover have "p * p \<le> v"
  proof -
    from small_divisor[OF p(2) p(1) \<open>p < v\<close>] obtain q where
      q: "2 \<le> q" "q * q \<le> v" "q dvd v" "q \<le> p" by blast
    with least[of q] have "q = p" by simp
    with q(2) show ?thesis by simp
  qed
  ultimately show ?thesis using p(2) least by blast
qed

lemma values_sieve_order:
  assumes "2 \<le> L"
  shows "fst ` set (sieve_order L) = {1..<L}"
proof (rule set_eqI)
  fix v
  show "(v \<in> fst ` set (sieve_order L)) = (v \<in> {1..<L})"
  proof
    assume "v \<in> fst ` set (sieve_order L)"
    then obtain t where "(v, t) \<in> set (sieve_order L)" by auto
    then consider "v = 1" | "is_prime v" "v < L"
      | p where "is_prime p" "p * p \<le> v" "v < L"
      by (auto simp: set_sieve_order)
    then show "v \<in> {1..<L}"
    proof cases
      case 1
      with assms show ?thesis by simp
    next
      case 2
      with is_prime_ge2[of v] show ?thesis by simp
    next
      case 3
      from is_prime_ge2[OF 3(1)] 3(2) have "p < v" by (rule square_factor_less)
      with 3(3) show ?thesis by simp
    qed
  next
    assume v: "v \<in> {1..<L}"
    show "v \<in> fst ` set (sieve_order L)"
    proof (cases "v = 1")
      case True
      have "(1, ''C'') \<in> set (sieve_order L)" by (simp add: sieve_order_def)
      with True show ?thesis by force
    next
      case False
      with v have v2: "2 \<le> v" "v < L" by simp_all
      show ?thesis
      proof (cases "has_other_divisor v")
        case False
        with v2 have "(v, ''P'') \<in> set (sieve_order L)"
          by (simp add: set_sieve_order is_prime_def)
        then show ?thesis by force
      next
        case True
        from least_prime_factor[OF v2(1) True] obtain p where
          p: "is_prime p" "p dvd v" "p * p \<le> v" by blast
        from is_prime_ge2[OF p(1)] p(3) have "p < v" by (rule square_factor_less)
        with v2 p have "(v, ''C'') \<in> set (sieve_order L)"
          by (auto simp: set_sieve_order)
        then show ?thesis by force
      qed
    qed
  qed
qed

lemma tag_sieve_order:
  assumes "(v, t) \<in> set (sieve_order L)"
  shows "(t = ''C'') = (v = 1 \<or> has_other_divisor v)" and "t = ''C'' \<or> t = ''P''"
proof -
  from assms consider "v = 1" "t = ''C''" | "is_prime v" "t = ''P''"
    | p where "is_prime p" "p * p \<le> v" "p dvd v" "t = ''C''"
    by (auto simp: set_sieve_order)
  then have "(t = ''C'') = (v = 1 \<or> has_other_divisor v) \<and> (t = ''C'' \<or> t = ''P'')"
  proof cases
    case 1
    then show ?thesis by simp
  next
    case 2
    then show ?thesis by (auto simp: is_prime_def)
  next
    case 3
    from is_prime_ge2[OF 3(1)] 3(2) have "p < v" by (rule square_factor_less)
    with is_prime_ge2[OF 3(1)] 3(3) have "has_other_divisor v"
      by (auto simp: has_other_divisor_def)
    with 3 show ?thesis by simp
  qed
  then show "(t = ''C'') = (v = 1 \<or> has_other_divisor v)" and "t = ''C'' \<or> t = ''P''"
    by blast+
qed

lemma primes_of_marking_pass:
  "filter (\<lambda>e. snd e = ''P'') (marking_pass L p) = [(p, ''P'')]"
  by (simp add: marking_pass_def filter_empty_conv)

lemma primes_of_passes:
  "map fst (filter (\<lambda>e. snd e = ''P'') (concat (map (marking_pass L) ps))) = ps"
  by (induction ps) (simp_all add: primes_of_marking_pass)

lemma primes_of_sieve_order:
  "map fst (filter (\<lambda>e. snd e = ''P'') (sieve_order L)) = filter is_prime [2..<L]"
  by (simp add: sieve_order_def primes_of_passes del: upt_Suc)

lemma is_prime_iff:
  "is_prime p = (1 < p \<and> (\<forall>d. d dvd p \<longrightarrow> d = 1 \<or> d = p))"
proof (cases "1 < p")
  case True
  then have "0 < p" by simp
  from has_other_divisor_iff[OF this] True show ?thesis
    by (auto simp: is_prime_def)
next
  case False
  then show ?thesis by (simp add: is_prime_def)
qed

section \<open>Where a composite first appears, and repeated values\<close>

lemma upt_split_at:
  assumes "a \<le> m" "m < b"
  shows "[a..<b] = [a..<m] @ m # [Suc m..<b]"
proof -
  from assms have "[a..<b] = [a..<m] @ [m..<b]"
    by (metis le_Suc_ex less_imp_le_nat upt_add_eq_append)
  also from assms(2) have "[m..<b] = m # [Suc m..<b]" by (rule upt_conv_Cons)
  finally show ?thesis .
qed

lemma primes_split_at:
  assumes "is_prime p" "p < L"
  shows "filter is_prime [2..<L] = filter is_prime [2..<p] @ p # filter is_prime [Suc p..<L]"
proof -
  from assms(1) have "2 \<le> p" by (rule is_prime_ge2)
  from upt_split_at[OF this assms(2)] assms(1) show ?thesis by simp
qed

lemma multiples_split_at:
  fixes p m :: nat
  assumes "p dvd m" "p * p \<le> m" "m < L"
  shows "filter (\<lambda>x. p dvd x) [p * p..<L]
       = filter (\<lambda>x. p dvd x) [p * p..<m] @ m # filter (\<lambda>x. p dvd x) [Suc m..<L]"
  using upt_split_at[OF assms(2,3)] assms(1) by simp

lemma sieve_order_split:
  assumes p: "is_prime p" and m: "p dvd m" "p * p \<le> m" "m < L"
  shows "sieve_order L
       = ((1, ''C'') # concat (map (marking_pass L) (filter is_prime [2..<p])))
         @ (p, ''P'') # map (\<lambda>x. (x, ''C'')) (filter (\<lambda>x. p dvd x) [p * p..<m])
         @ (m, ''C'')
         # (map (\<lambda>x. (x, ''C'')) (filter (\<lambda>x. p dvd x) [Suc m..<L])
            @ concat (map (marking_pass L) (filter is_prime [Suc p..<L])))"
proof -
  from is_prime_ge2[OF p] m(2) have "p < m" by (rule square_factor_less)
  with m(3) have "p < L" by simp
  have "marking_pass L p
      = (p, ''P'') # map (\<lambda>x. (x, ''C'')) (filter (\<lambda>x. p dvd x) [p * p..<m])
        @ (m, ''C'') # map (\<lambda>x. (x, ''C'')) (filter (\<lambda>x. p dvd x) [Suc m..<L])"
    unfolding marking_pass_def multiples_split_at[OF m] by simp
  then show ?thesis
    unfolding sieve_order_def primes_split_at[OF p \<open>p < L\<close>] by simp
qed

lemma first_emission_of_composite:
  assumes "has_other_divisor m" "2 \<le> m" "m < L"
  shows "\<exists>p pre c1 post.
           sieve_order L = pre @ (p, ''P'') # map (\<lambda>x. (x, ''C'')) c1 @ (m, ''C'') # post
         \<and> m \<notin> fst ` set pre \<and> m \<notin> set c1
         \<and> p dvd m \<and> p * p \<le> m \<and> (\<forall>q. 2 \<le> q \<and> q dvd m \<longrightarrow> p \<le> q)"
proof -
  from least_prime_factor[OF assms(2,1)] obtain p where
    p: "is_prime p" "p dvd m" "p * p \<le> m" and least: "\<And>q. 2 \<le> q \<and> q dvd m \<Longrightarrow> p \<le> q"
    by blast
  from is_prime_ge2[OF p(1)] p(3) have "p < m" by (rule square_factor_less)
  let ?pre = "(1, ''C'') # concat (map (marking_pass L) (filter is_prime [2..<p]))"
  let ?c1 = "filter (\<lambda>x. p dvd x) [p * p..<m]"
  have "m \<notin> fst ` set ?pre"
  proof
    assume "m \<in> fst ` set ?pre"
    then obtain e where e: "e \<in> set ?pre" "m = fst e" by (rule imageE)
    define t where "t = snd e"
    from e have "(m, t) \<in> set ?pre" unfolding t_def by (metis prod.collapse)
    with assms(2) have "(m, t) \<in> set (concat (map (marking_pass L) (filter is_prime [2..<p])))"
      by auto
    then have "\<exists>q. is_prime q \<and> q < p \<and> (m, t) \<in> set (marking_pass L q)"
      by auto
    then obtain q where q: "is_prime q" "q < p" "(m, t) \<in> set (marking_pass L q)"
      by blast
    from q(3) have "q = m \<or> q dvd m" by (auto simp: set_marking_pass)
    with q(2) \<open>p < m\<close> have "q dvd m" by auto
    with is_prime_ge2[OF q(1)] least[of q] q(2) show False by simp
  qed
  moreover have "m \<notin> set ?c1" by simp
  ultimately show ?thesis
    using sieve_order_split[OF p(1,2,3) assms(3)] p(2,3) least by blast
qed

lemma is_prime_2: "is_prime 2"
  by (simp add: is_prime_def has_other_divisor_def)

lemma is_prime_3: "is_prime 3"
  by code_simp

lemma twelve_twice:
  assumes "13 \<le> L"
  shows "\<not> distinct (map fst (sieve_order L))"
proof -
  from assms have "[2..<L] = 2 # 3 # [4..<L]"
    by (simp add: upt_conv_Cons eval_nat_numeral del: upt_Suc)
  then have "filter is_prime [2..<L] = 2 # 3 # filter is_prime [4..<L]"
    using is_prime_2 is_prime_3 by simp
  then have eq: "sieve_order L = (1, ''C'') # marking_pass L 2 @ marking_pass L 3
      @ concat (map (marking_pass L) (filter is_prime [4..<L]))"
    by (simp add: sieve_order_def)
  from assms have "(12, ''C'') \<in> set (marking_pass L 2)" "(12, ''C'') \<in> set (marking_pass L 3)"
    by (simp_all add: set_marking_pass)
  then have "12 \<in> set (map fst (marking_pass L 2))" "12 \<in> set (map fst (marking_pass L 3))"
    by force+
  then show ?thesis unfolding eq by auto
qed

lemma length_exceeds:
  assumes "2 \<le> L" "\<not> distinct (map fst (sieve_order L))"
  shows "L - 1 < length (sieve_order L)"
proof -
  have "card (set (map fst (sieve_order L))) = L - 1"
    using values_sieve_order[OF assms(1)] by simp
  moreover have "card (set (map fst (sieve_order L))) \<le> length (map fst (sieve_order L))"
    by (rule card_length)
  moreover have "card (set (map fst (sieve_order L))) \<noteq> length (map fst (sieve_order L))"
    using assms(2) card_distinct by blast
  ultimately show ?thesis by simp
qed

section \<open>The sequence for small limits, by evaluation\<close>

lemma primeSieve_2: "primeSieve 2 = Inr [(1, ''C'')]"
  by code_simp

lemma primeSieve_5: "primeSieve 5 = Inr [(1, ''C''), (2, ''P''), (4, ''C''), (3, ''P'')]"
  by code_simp

lemma primeSieve_10:
  "primeSieve 10 = Inr [(1, ''C''), (2, ''P''), (4, ''C''), (6, ''C''), (8, ''C''),
                        (3, ''P''), (9, ''C''), (5, ''P''), (7, ''P'')]"
  by code_simp

lemma primeSieve_17:
  "primeSieve 17 = Inr [(1, ''C''), (2, ''P''), (4, ''C''), (6, ''C''), (8, ''C''), (10, ''C''),
                        (12, ''C''), (14, ''C''), (16, ''C''), (3, ''P''), (9, ''C''), (12, ''C''),
                        (15, ''C''), (5, ''P''), (7, ''P''), (11, ''P''), (13, ''P'')]"
  by code_simp

lemma primeSieve_101_prefix:
  "take 57 (projr (primeSieve 101))
     = (1, ''C'') # (2, ''P'') # map (\<lambda>k. (2 * k, ''C'')) [2..<51]
       @ [(3, ''P''), (9, ''C''), (12, ''C''), (15, ''C''), (18, ''C''), (21, ''C'')]"
  by code_simp

lemma primeSieve_101_ok: "\<not> isl (primeSieve 101)"
  by code_simp

section \<open>Laying out the grid and setting up the window\<close>

lemma drops_step:
  fixes a N :: nat
  assumes "1 \<le> a"
  shows "(if a mod N = 0 then (a - 1) div N + 1 else (a - 1) div N) = a div N"
proof -
  from assms obtain k where a: "a = Suc k" by (cases a) simp_all
  show ?thesis unfolding a by (simp add: div_Suc)
qed

lemma drawNumbers_loop_upt:
  assumes "1 \<le> a"
  shows "drawNumbers_loop N [a..<b] ((a - 1) div N) info v
       = (if a \<le> v \<and> v < b then Some ((v - 1) mod N, (v - 1) div N) else info v)"
  using assms
proof (induction "b - a" arbitrary: a info)
  case 0
  then have "b \<le> a" by simp
  then have "[a..<b] = []" and "\<not> (a \<le> v \<and> v < b)" by simp_all
  then show ?case by (simp only: drawNumbers_loop.simps if_False)
next
  case (Suc k)
  then have lt: "a < b" and k: "k = b - Suc a" and a1: "1 \<le> Suc a" by simp_all
  have drops: "(if a mod N = 0 then (a - 1) div N + 1 else (a - 1) div N) = (Suc a - 1) div N"
    using drops_step[OF Suc.prems, of N] by simp
  have "drawNumbers_loop N [a..<b] ((a - 1) div N) info v
      = drawNumbers_loop N [Suc a..<b] ((Suc a - 1) div N)
          (info(a \<mapsto> ((a - 1) mod N, (a - 1) div N))) v"
    unfolding upt_conv_Cons[OF lt] drawNumbers_loop.simps drops ..
  also have "\<dots> = (if Suc a \<le> v \<and> v < b then Some ((v - 1) mod N, (v - 1) div N)
                    else (info(a \<mapsto> ((a - 1) mod N, (a - 1) div N))) v)"
    by (rule Suc.hyps(1)[OF k a1])
  also have "\<dots> = (if a \<le> v \<and> v < b then Some ((v - 1) mod N, (v - 1) div N) else info v)"
    using lt by auto
  finally show ?case .
qed

lemma drawNumbers_result:
  assumes "0 < N"
  shows "\<exists>info. drawNumbers N = Inr info
           \<and> (\<forall>v. info v = (if 1 \<le> v \<and> v \<le> N ^ 2 then Some ((v - 1) mod N, (v - 1) div N) else None))"
proof -
  have "drawNumbers_loop N [1..<N ^ 2 + 1] ((1 - 1) div N) Map.empty v
      = (if 1 \<le> v \<and> v \<le> N ^ 2 then Some ((v - 1) mod N, (v - 1) div N) else None)" for v
    using drawNumbers_loop_upt[of 1 N "N ^ 2 + 1" Map.empty v] by (simp del: upt_Suc)
  then show ?thesis using assms by (simp add: drawNumbers_def del: upt_Suc)
qed

lemma drawSquares_loop_result:
  assumes "\<forall>v\<in>set xs. info v = Some (f v)"
  shows "drawSquares_loop xs info sl
       = Inr (sl @ map (\<lambda>v. \<lparr>cell = f v, color = LIGHT_BLUE, visible = False\<rparr>) xs)"
  using assms by (induction xs arbitrary: sl) simp_all

lemma drawSquares_result:
  assumes "drawNumbers N = Inr info"
  shows "drawSquares [] N info = Inr (hidden_squares N)"
proof -
  from assms have N: "0 < N" by (auto simp: drawNumbers_def split: if_splits)
  from drawNumbers_result[OF N] assms
  have "\<forall>v\<in>set [1..<N ^ 2 + 1]. info v = Some ((v - 1) mod N, (v - 1) div N)"
    by auto
  from drawSquares_loop_result[of "[1..<N ^ 2 + 1]" info "\<lambda>v. ((v - 1) mod N, (v - 1) div N)" "[]", OF this]
  show ?thesis by (simp add: drawSquares_def hidden_squares_def del: upt_Suc)
qed

lemma length_hidden_squares: "length (hidden_squares N) = N ^ 2"
  by (simp add: hidden_squares_def del: upt_Suc)

lemma hidden_squares_hidden: "sq \<in> set (hidden_squares N) \<Longrightarrow> \<not> visible sq"
  by (auto simp: hidden_squares_def simp del: upt_Suc)

lemma primeSieve_grid:
  assumes "0 < N"
  shows "primeSieve (int N ^ 2 + 1) = Inr (sieve_order (N ^ 2 + 1))"
proof -
  have e: "int N ^ 2 + 1 = int (N ^ 2 + 1)" by simp
  from assms have "1 \<le> N ^ 2" by simp
  then have "2 \<le> N ^ 2 + 1" by simp
  then have "2 \<le> int (N ^ 2 + 1)" by linarith
  from primeSieve_closed[OF this] show ?thesis unfolding e by (simp only: nat_int)
qed

lemma init_window_result:
  "\<exists>coords. init_window = Inr \<lparr>gridN = 10, square_coords = coords, data = sieve_order (10 ^ 2 + 1) @ PADDING,
       square_list = hidden_squares 10, currentIndex = 0, closed = False\<rparr>
     \<and> drawNumbers 10 = Inr coords"
proof -
  obtain coords where c: "drawNumbers 10 = Inr coords"
    using drawNumbers_result[of 10] by auto
  have "primeSieve (10 ^ 2 + 1) = Inr (sieve_order (10 ^ 2 + 1))"
    using primeSieve_grid[of 10] by simp
  with c drawSquares_result[OF c] show ?thesis
    by (simp add: init_window_def)
qed

lemma init_window_start:
  assumes "init_window = Inr w"
  shows "start_state w"
proof -
  from init_window_result obtain coords where
    eq: "init_window = Inr \<lparr>gridN = 10, square_coords = coords, data = sieve_order (10 ^ 2 + 1) @ PADDING,
       square_list = hidden_squares 10, currentIndex = 0, closed = False\<rparr>"
    and c: "drawNumbers 10 = Inr coords"
    by blast
  from assms have "Inr w = init_window" by (rule sym)
  also note eq
  finally have "w = \<lparr>gridN = 10, square_coords = coords, data = sieve_order (10 ^ 2 + 1) @ PADDING,
       square_list = hidden_squares 10, currentIndex = 0, closed = False\<rparr>"
    by simp
  with c show ?thesis by (simp add: start_state_def)
qed

lemma on_key_press_resize:
  assumes "key_1 \<le> symbol" "symbol \<le> key_9" "symbol - 39 \<noteq> int (gridN self)"
  shows "\<exists>coords. on_key_press self symbol
           = Inr (self\<lparr>gridN := nat (symbol - 39), square_coords := coords,
                       square_list := hidden_squares (nat (symbol - 39)), currentIndex := 0,
                       data := sieve_order (nat (symbol - 39) ^ 2 + 1) @ PADDING\<rparr>)
         \<and> drawNumbers (nat (symbol - 39)) = Inr coords"
proof -
  define N where "N = nat (symbol - 39)"
  from assms(1) have N: "0 < N" by (simp add: N_def key_1_def)
  from assms(1,2) have notQ: "symbol \<noteq> key_Q" by (simp add: key_9_def key_Q_def)
  obtain coords where c: "drawNumbers N = Inr coords"
    using drawNumbers_result[OF N] by auto
  from c drawSquares_result[OF c] primeSieve_grid[OF N] assms notQ
  have "on_key_press self symbol
           = Inr (self\<lparr>gridN := N, square_coords := coords,
                       square_list := hidden_squares N, currentIndex := 0,
                       data := sieve_order (N ^ 2 + 1) @ PADDING\<rparr>)"
    by (simp add: on_key_press_def N_def[symmetric] Let_def)
  with c show ?thesis unfolding N_def by blast
qed

lemma on_key_press_start:
  assumes "key_1 \<le> symbol" "symbol \<le> key_9" "symbol - 39 \<noteq> int (gridN self)"
    and "on_key_press self symbol = Inr w"
  shows "start_state w"
proof -
  from assms(1) have N: "0 < nat (symbol - 39)" by (simp add: key_1_def)
  from on_key_press_resize[OF assms(1-3)] obtain coords where
    eq: "on_key_press self symbol
           = Inr (self\<lparr>gridN := nat (symbol - 39), square_coords := coords,
                       square_list := hidden_squares (nat (symbol - 39)), currentIndex := 0,
                       data := sieve_order (nat (symbol - 39) ^ 2 + 1) @ PADDING\<rparr>)"
    and c: "drawNumbers (nat (symbol - 39)) = Inr coords"
    by blast
  from assms(4) have "Inr w = on_key_press self symbol" by (rule sym)
  also note eq
  finally have "w = self\<lparr>gridN := nat (symbol - 39), square_coords := coords,
                       square_list := hidden_squares (nat (symbol - 39)), currentIndex := 0,
                       data := sieve_order (nat (symbol - 39) ^ 2 + 1) @ PADDING\<rparr>"
    by simp
  with c N show ?thesis by (simp add: start_state_def)
qed

section \<open>The per-frame step and its iteration\<close>

lemma reveal_all_Nil: "reveal_all [] sl = sl"
  by (simp add: reveal_all_def)

lemma reveal_all_Cons:
  "reveal_all ((v, t) # es) sl = reveal_all es (sl[v - 1 := shown t (sl ! (v - 1))])"
  by (simp add: reveal_all_def)

lemma reveal_all_append: "reveal_all (es @ fs) sl = reveal_all fs (reveal_all es sl)"
  by (simp add: reveal_all_def)

lemma reveal_all_snoc:
  "reveal_all (es @ [(v, t)]) sl
     = (reveal_all es sl)[v - 1 := shown t (reveal_all es sl ! (v - 1))]"
  by (simp add: reveal_all_def)

lemma length_reveal_all: "length (reveal_all es sl) = length sl"
  by (induction es arbitrary: sl) (auto simp: reveal_all_Nil reveal_all_Cons)

lemma shown_shown: "shown t (shown t sq) = shown t sq"
  by (simp add: shown_def)

lemma reveal_all_nth:
  assumes "j < length sl"
    and "\<forall>(v, t)\<in>set es. 1 \<le> v \<and> (v = j + 1 \<longrightarrow> t = t0)"
  shows "reveal_all es sl ! j = (if j + 1 \<in> fst ` set es then shown t0 (sl ! j) else sl ! j)"
  using assms(2)
proof (induction es rule: rev_induct)
  case Nil
  then show ?case by (simp add: reveal_all_Nil)
next
  case (snoc e es)
  obtain v t where e: "e = (v, t)" by (cases e)
  from snoc.prems e have v: "1 \<le> v" "v = j + 1 \<longrightarrow> t = t0"
    and rest: "\<forall>(v, t)\<in>set es. 1 \<le> v \<and> (v = j + 1 \<longrightarrow> t = t0)"
    by auto
  note IH = snoc.IH[OF rest]
  from assms(1) have len: "j < length (reveal_all es sl)" by (simp add: length_reveal_all)
  show ?case
  proof (cases "v = j + 1")
    case True
    with v have "t = t0" by simp
    with True len IH show ?thesis
      unfolding e reveal_all_snoc by (simp add: shown_shown)
  next
    case False
    with v(1) have "v - 1 \<noteq> j" by arith
    with False IH show ?thesis
      unfolding e reveal_all_snoc by simp
  qed
qed

lemma square_index_ok: "1 \<le> v \<Longrightarrow> v \<le> len \<Longrightarrow> square_index v len = Inr (v - 1)"
  by (simp add: square_index_def)

lemma reveal_result:
  assumes "currentIndex w < length (data w)" "data w ! currentIndex w = (v, t)"
    and "1 \<le> v" "v \<le> length (square_list w)"
  shows "reveal w = Inr ((square_list w)[v - 1 := shown t (square_list w ! (v - 1))])"
  using assms by (simp add: reveal_def square_index_ok shown_def)

lemma on_draw_step:
  assumes "currentIndex w + 1 < length (data w)" "data w ! currentIndex w = (v, t)"
    and "1 \<le> v" "v \<le> length (square_list w)"
  shows "on_draw w = Inr (w\<lparr>square_list := (square_list w)[v - 1 := shown t (square_list w ! (v - 1))],
                            currentIndex := currentIndex w + 1\<rparr>)"
proof -
  from assms(1) have "currentIndex w < length (data w)" by simp
  from reveal_result[OF this assms(2-4)] assms(1) show ?thesis
    by (simp add: on_draw_def Let_def)
qed

lemma on_draw_last:
  assumes "currentIndex w + 1 = length (data w)" "data w ! currentIndex w = (v, t)"
    and "1 \<le> v" "v \<le> length (square_list w)"
    and "drawNumbers (gridN w) = Inr (square_coords w)"
  shows "on_draw w = Inr (w\<lparr>square_list := hidden_squares (gridN w), currentIndex := 0\<rparr>)"
proof -
  from assms(1) have "currentIndex w < length (data w)" by simp
  from reveal_result[OF this assms(2-4)] assms(1) drawSquares_result[OF assms(5)]
  show ?thesis by (simp add: on_draw_def Let_def)
qed

lemma on_draw_times_run:
  assumes "currentIndex w + k < length (data w)"
    and "\<forall>(v, t)\<in>set (data w). 1 \<le> v \<and> v \<le> length (square_list w)"
  shows "on_draw_times k w
       = Inr (w\<lparr>square_list := reveal_all (take k (drop (currentIndex w) (data w))) (square_list w),
                 currentIndex := currentIndex w + k\<rparr>)"
  using assms
proof (induction k arbitrary: w)
  case 0
  then show ?case by (simp add: reveal_all_Nil)
next
  case (Suc k)
  let ?c = "currentIndex w"
  obtain v t where vt: "data w ! ?c = (v, t)" by (cases "data w ! ?c")
  from Suc.prems(1) have c: "?c < length (data w)" "?c + 1 < length (data w)" by simp_all
  from c(1) vt have "(v, t) \<in> set (data w)" by (metis nth_mem)
  with Suc.prems(2) have v: "1 \<le> v" "v \<le> length (square_list w)" by auto
  let ?w1 = "w\<lparr>square_list := (square_list w)[v - 1 := shown t (square_list w ! (v - 1))],
                currentIndex := ?c + 1\<rparr>"
  have step: "on_draw w = Inr ?w1" by (rule on_draw_step[OF c(2) vt v])
  have "on_draw_times k ?w1
       = Inr (?w1\<lparr>square_list := reveal_all (take k (drop (currentIndex ?w1) (data ?w1))) (square_list ?w1),
                 currentIndex := currentIndex ?w1 + k\<rparr>)"
    using Suc.prems by (intro Suc.IH) simp_all
  moreover have "take (Suc k) (drop ?c (data w)) = (v, t) # take k (drop (Suc ?c) (data w))"
    using c(1) vt by (simp add: Cons_nth_drop_Suc[symmetric])
  ultimately show ?case
    by (simp add: step reveal_all_Cons)
qed

lemma on_draw_times_Suc_end:
  "on_draw_times (Suc k) w
     = (case on_draw_times k w of Inl e \<Rightarrow> Inl e | Inr w1 \<Rightarrow> on_draw w1)"
proof (induction k arbitrary: w)
  case 0
  then show ?case by (simp split: sum.splits)
next
  case (Suc k)
  show ?case
  proof (cases "on_draw w")
    case (Inl e)
    then show ?thesis by simp
  next
    case (Inr w1)
    with Suc.IH[of w1] show ?thesis by simp
  qed
qed

section \<open>A full cycle from a start state, and the pause at its end\<close>

lemma PADDING_replicate: "PADDING = replicate 35 (1, ''C'')"
  by (simp add: PADDING_def TIME_AFTER_COMPLETION_def)

lemma length_full_grid: "length (full_grid N) = N ^ 2"
  by (simp add: full_grid_def del: upt_Suc)

lemma full_grid_visible: "sq \<in> set (full_grid N) \<Longrightarrow> visible sq"
  by (auto simp: full_grid_def simp del: upt_Suc)

lemma nth_hidden_squares:
  "j < N ^ 2 \<Longrightarrow> hidden_squares N ! j
     = \<lparr>cell = (j mod N, j div N), color = LIGHT_BLUE, visible = False\<rparr>"
  by (simp add: hidden_squares_def del: upt_Suc)

lemma nth_full_grid:
  "j < N ^ 2 \<Longrightarrow> full_grid N ! j
     = \<lparr>cell = (j mod N, j div N), color = (if is_prime (j + 1) then RED else LIGHT_BLUE),
        visible = True\<rparr>"
  by (simp add: full_grid_def del: upt_Suc)

lemma start_values:
  assumes "start_state w"
  shows "\<forall>(v, t)\<in>set (data w). 1 \<le> v \<and> v \<le> length (square_list w)"
proof -
  let ?N = "gridN w"
  from assms have N: "0 < ?N" and d: "data w = sieve_order (?N ^ 2 + 1) @ PADDING"
    and len: "length (square_list w) = ?N ^ 2"
    by (simp_all add: start_state_def length_hidden_squares)
  from N have one: "1 \<le> ?N ^ 2" by simp
  then have L: "2 \<le> ?N ^ 2 + 1" by simp
  have "1 \<le> v \<and> v \<le> ?N ^ 2" if "(v, t) \<in> set (data w)" for v t
  proof (cases "(v, t) \<in> set PADDING")
    case True
    then have "v = 1" by (simp add: PADDING_replicate)
    with one show ?thesis by simp
  next
    case False
    with that d have "(v, t) \<in> set (sieve_order (?N ^ 2 + 1))" by simp
    then have "fst (v, t) \<in> fst ` set (sieve_order (?N ^ 2 + 1))" by (rule imageI)
    then have "v \<in> {1..<?N ^ 2 + 1}" unfolding values_sieve_order[OF L] by simp
    then show ?thesis by simp
  qed
  with len show ?thesis by auto
qed

lemma start_run:
  assumes "start_state w" "k < length (data w)"
  shows "on_draw_times k w
       = Inr (w\<lparr>square_list := reveal_all (take k (data w)) (hidden_squares (gridN w)),
                 currentIndex := k\<rparr>)"
proof -
  from assms(1) have c: "currentIndex w = 0" and sl: "square_list w = hidden_squares (gridN w)"
    by (simp_all add: start_state_def)
  from assms(2) c have "currentIndex w + k < length (data w)" by simp
  from on_draw_times_run[OF this start_values[OF assms(1)]] c sl show ?thesis by simp
qed

lemma start_cycle:
  assumes "start_state w"
  shows "on_draw_times (length (data w)) w = Inr w"
proof -
  let ?N = "gridN w"
  from assms have c: "currentIndex w = 0" and sl: "square_list w = hidden_squares ?N"
    and coords: "drawNumbers ?N = Inr (square_coords w)"
    and d: "data w = sieve_order (?N ^ 2 + 1) @ PADDING"
    by (simp_all add: start_state_def)
  from d obtain k where L: "length (data w) = Suc k"
    by (simp add: PADDING_replicate)
  let ?w1 = "w\<lparr>square_list := reveal_all (take k (data w)) (hidden_squares ?N), currentIndex := k\<rparr>"
  from L have "k < length (data w)" by simp
  from start_run[OF assms this] have run: "on_draw_times k w = Inr ?w1" .
  obtain v t where vt: "data ?w1 ! currentIndex ?w1 = (v, t)"
    by (cases "data ?w1 ! currentIndex ?w1")
  from L have "(data w ! k) \<in> set (data w)" by simp
  with vt start_values[OF assms] sl have v: "1 \<le> v" "v \<le> length (square_list ?w1)"
    by (auto simp: length_reveal_all)
  have "on_draw ?w1 = Inr (?w1\<lparr>square_list := hidden_squares (gridN ?w1), currentIndex := 0\<rparr>)"
    using L coords by (intro on_draw_last[OF _ vt v]) simp_all
  also have "?w1\<lparr>square_list := hidden_squares (gridN ?w1), currentIndex := 0\<rparr>
           = w\<lparr>square_list := square_list w, currentIndex := currentIndex w\<rparr>"
    by (simp add: c sl)
  also have "\<dots> = w" by simp
  finally have "on_draw ?w1 = Inr w" .
  with run show ?thesis unfolding L on_draw_times_Suc_end by simp
qed

lemma reveal_sequence:
  assumes "0 < N"
  shows "reveal_all (sieve_order (N ^ 2 + 1)) (hidden_squares N) = full_grid N"
proof (rule nth_equalityI)
  show "length (reveal_all (sieve_order (N ^ 2 + 1)) (hidden_squares N)) = length (full_grid N)"
    by (simp add: length_reveal_all length_hidden_squares length_full_grid)
next
  fix j
  assume "j < length (reveal_all (sieve_order (N ^ 2 + 1)) (hidden_squares N))"
  then have j: "j < N ^ 2" by (simp add: length_reveal_all length_hidden_squares)
  let ?es = "sieve_order (N ^ 2 + 1)"
  let ?t0 = "if is_prime (j + 1) then ''P'' else ''C''"
  from assms have "1 \<le> N ^ 2" by simp
  then have L: "2 \<le> N ^ 2 + 1" by simp
  have tags: "\<forall>(v, t)\<in>set ?es. 1 \<le> v \<and> (v = j + 1 \<longrightarrow> t = ?t0)"
  proof -
    have "1 \<le> v \<and> (v = j + 1 \<longrightarrow> t = ?t0)" if mem: "(v, t) \<in> set ?es" for v t
    proof -
      from mem have "fst (v, t) \<in> fst ` set ?es" by (rule imageI)
      then have "v \<in> {1..<N ^ 2 + 1}" unfolding values_sieve_order[OF L] by simp
      then have v1: "1 \<le> v" by simp
      from tag_sieve_order[OF mem]
      have t: "(t = ''C'') = (v = 1 \<or> has_other_divisor v)" "t = ''C'' \<or> t = ''P''" .
      have "t = (if is_prime v then ''P'' else ''C'')"
      proof (cases "is_prime v")
        case True
        then have "v \<noteq> 1" "\<not> has_other_divisor v" by (simp_all add: is_prime_def)
        with t True show ?thesis by auto
      next
        case False
        with v1 have "v = 1 \<or> has_other_divisor v" by (auto simp: is_prime_def)
        with t False show ?thesis by simp
      qed
      with v1 show ?thesis by simp
    qed
    then show ?thesis by auto
  qed
  from j have jl: "j < length (hidden_squares N)" by (simp add: length_hidden_squares)
  from j have "j + 1 \<in> {1..<N ^ 2 + 1}" by simp
  then have "j + 1 \<in> fst ` set ?es" unfolding values_sieve_order[OF L] .
  with reveal_all_nth[OF jl tags]
  have "reveal_all ?es (hidden_squares N) ! j = shown ?t0 (hidden_squares N ! j)" by simp
  also have "\<dots> = full_grid N ! j"
    by (simp add: nth_hidden_squares[OF j] nth_full_grid[OF j] shown_def)
  finally show "reveal_all ?es (hidden_squares N) ! j = full_grid N ! j" .
qed

lemma not_prime_1: "\<not> is_prime 1"
  by (simp add: is_prime_def)

lemma full_grid_first:
  "(full_grid N)[1 - 1 := shown ''C'' (full_grid N ! (1 - 1))] = full_grid N"
proof (cases "0 < N ^ 2")
  case True
  from nth_full_grid[OF True] not_prime_1
  have "shown ''C'' (full_grid N ! 0) = full_grid N ! 0" by (simp add: shown_def)
  then show ?thesis by simp
next
  case False
  then have "full_grid N = []" using length_full_grid[of N] by simp
  then show ?thesis by simp
qed

lemma reveal_padding: "reveal_all (replicate k (1, ''C'')) (full_grid N) = full_grid N"
proof (induction k)
  case 0
  then show ?case by (simp add: reveal_all_Nil)
next
  case (Suc k)
  have "reveal_all (replicate (Suc k) (1, ''C'')) (full_grid N)
      = reveal_all (replicate k (1, ''C''))
          ((full_grid N)[1 - 1 := shown ''C'' (full_grid N ! (1 - 1))])"
    unfolding replicate_Suc by (rule reveal_all_Cons)
  with Suc show ?case unfolding full_grid_first by simp
qed

lemma start_pause:
  assumes "start_state w" "k < 35"
  shows "on_draw_times (length (sieve_order (gridN w ^ 2 + 1)) + k) w
       = Inr (w\<lparr>square_list := full_grid (gridN w),
                 currentIndex := length (sieve_order (gridN w ^ 2 + 1)) + k\<rparr>)"
proof -
  let ?es = "sieve_order (gridN w ^ 2 + 1)"
  from assms(1) have N: "0 < gridN w" and d: "data w = ?es @ PADDING"
    by (simp_all add: start_state_def)
  from d assms(2) have lt: "length ?es + k < length (data w)" by (simp add: PADDING_replicate)
  have "take (length ?es + k) (data w) = ?es @ replicate k (1, ''C'')"
    using assms(2) unfolding d PADDING_replicate by simp
  then have "reveal_all (take (length ?es + k) (data w)) (hidden_squares (gridN w)) = full_grid (gridN w)"
    by (simp only: reveal_all_append reveal_sequence[OF N] reveal_padding)
  with start_run[OF assms(1) lt] show ?thesis by (simp only:)
qed

section \<open>The ticks of the pause, and the first window\<close>

lemma pause_tick:
  assumes "start_state w0" "k < 35"
  shows "on_draw_times (length (sieve_order (gridN w0 ^ 2 + 1)) + k) w0
           = Inr (w0\<lparr>square_list := full_grid (gridN w0),
                      currentIndex := length (sieve_order (gridN w0 ^ 2 + 1)) + k\<rparr>)"
    and "data w0 ! (length (sieve_order (gridN w0 ^ 2 + 1)) + k) = (1, ''C'')"
    and "reveal (w0\<lparr>square_list := full_grid (gridN w0),
                      currentIndex := length (sieve_order (gridN w0 ^ 2 + 1)) + k\<rparr>)
           = Inr (full_grid (gridN w0))"
    and "k < 34 \<Longrightarrow>
         on_draw (w0\<lparr>square_list := full_grid (gridN w0),
                      currentIndex := length (sieve_order (gridN w0 ^ 2 + 1)) + k\<rparr>)
           = Inr (w0\<lparr>square_list := full_grid (gridN w0),
                      currentIndex := length (sieve_order (gridN w0 ^ 2 + 1)) + k + 1\<rparr>)"
    and "k = 34 \<Longrightarrow>
         on_draw (w0\<lparr>square_list := full_grid (gridN w0),
                      currentIndex := length (sieve_order (gridN w0 ^ 2 + 1)) + k\<rparr>)
           = Inr w0"
proof -
  let ?N = "gridN w0"
  let ?es = "sieve_order (?N ^ 2 + 1)"
  let ?w = "\<lambda>k. w0\<lparr>square_list := full_grid ?N, currentIndex := length ?es + k\<rparr>"
  from assms(1) have N: "0 < ?N" and d: "data w0 = ?es @ PADDING"
    by (simp_all add: start_state_def)
  show run: "on_draw_times (length ?es + k) w0 = Inr (?w k)"
    by (rule start_pause[OF assms])
  show nth: "data w0 ! (length ?es + k) = (1, ''C'')"
    unfolding d using assms(2) by (simp add: PADDING_replicate)
  from d assms(2) have lt: "length ?es + k < length (data w0)"
    by (simp add: PADDING_replicate)
  from N have "1 \<le> ?N ^ 2" by simp
  then have one: "(1::nat) \<le> length (square_list (?w k))" by (simp add: length_full_grid)
  have "reveal (?w k)
      = Inr ((square_list (?w k))[1 - 1 := shown ''C'' (square_list (?w k) ! (1 - 1))])"
    using lt nth one by (intro reveal_result) simp_all
  then show "reveal (?w k) = Inr (full_grid ?N)"
    using full_grid_first[of ?N] by simp
  show "on_draw (?w k) = Inr (w0\<lparr>square_list := full_grid ?N, currentIndex := length ?es + k + 1\<rparr>)"
    if "k < 34"
  proof -
    from that have "Suc k < 35" by simp
    from start_pause[OF assms(1) this]
    have "on_draw_times (Suc (length ?es + k)) w0 = Inr (?w (Suc k))" by simp
    then have "on_draw (?w k) = Inr (?w (Suc k))"
      unfolding on_draw_times_Suc_end run by simp
    then show ?thesis by simp
  qed
  show "on_draw (?w k) = Inr w0" if "k = 34"
  proof -
    from that d have "length (data w0) = Suc (length ?es + k)" by (simp add: PADDING_replicate)
    with start_cycle[OF assms(1)] have "on_draw_times (Suc (length ?es + k)) w0 = Inr w0"
      by simp
    then show ?thesis unfolding on_draw_times_Suc_end run by simp
  qed
qed

lemma visible_full_grid: "map visible (full_grid N) = replicate (N ^ 2) True"
  by (simp add: full_grid_def comp_def map_replicate_const del: upt_Suc)

lemma visible_hidden_squares: "map visible (hidden_squares N) = replicate (N ^ 2) False"
  by (simp add: hidden_squares_def comp_def map_replicate_const del: upt_Suc)

lemma length_primeSieve_101: "length (projr (primeSieve 101)) = 130"
  by code_simp

lemma length_sieve_order_101: "length (sieve_order 101) = 130"
proof -
  have "primeSieve 101 = Inr (sieve_order (nat 101))" by (rule primeSieve_closed) simp
  with length_primeSieve_101 show ?thesis by simp
qed

lemma init_window_facts:
  "init_window = Inr (projr init_window)" "start_state (projr init_window)"
  "gridN (projr init_window) = 10" "length (data (projr init_window)) = 165"
proof -
  from init_window_result obtain coords where
    eq: "init_window = Inr \<lparr>gridN = 10, square_coords = coords, data = sieve_order (10 ^ 2 + 1) @ PADDING,
       square_list = hidden_squares 10, currentIndex = 0, closed = False\<rparr>"
    by blast
  show a: "init_window = Inr (projr init_window)" unfolding eq by simp
  then show "start_state (projr init_window)" by (rule init_window_start)
  show "gridN (projr init_window) = 10" unfolding eq by simp
  show "length (data (projr init_window)) = 165"
    unfolding eq by (simp add: PADDING_replicate length_sieve_order_101)
qed

section \<open>Claims about the generator\<close>

text \<open>
  Claim C1, as amended. For every size from 1 to 18, \<open>primeSieve(size\<^sup>2 + 1)\<close> returns a
  sequence whose numbers are exactly the integers from 1 to \<open>size\<^sup>2\<close>: none is left out
  and none lies outside. For sizes up to 3 there are exactly \<open>size\<^sup>2\<close> elements and no
  number is repeated; from size 4 on there are more than \<open>size\<^sup>2\<close> elements, because a
  marking pass yields every multiple it reaches, whether or not an earlier pass has
  yielded it. For size 1 the sequence is just \<open>(1, ''C'')\<close>.
\<close>

theorem primeSieve_covers_grid:
  assumes "1 \<le> N" "N \<le> 18"
  shows "\<exists>sequence. primeSieve (int N ^ 2 + 1) = Inr sequence
           \<and> fst ` set sequence = {1..N ^ 2}
           \<and> (N \<le> 3 \<longrightarrow> length sequence = N ^ 2 \<and> distinct (map fst sequence))
           \<and> (4 \<le> N \<longrightarrow> N ^ 2 < length sequence \<and> \<not> distinct (map fst sequence))
           \<and> (N = 1 \<longrightarrow> sequence = [(1, ''C'')])"
proof -
  define L where "L = N ^ 2 + 1"
  have L: "int N ^ 2 + 1 = int L" by (simp add: L_def)
  from assms(1) have "1 \<le> N ^ 2" by simp
  then have L2: "2 \<le> L" by (simp add: L_def)
  then have closed: "primeSieve (int L) = Inr (sieve_order L)"
    using primeSieve_closed[of "int L"] by simp
  have "{1..<L} = {1..N ^ 2}" by (auto simp: L_def)
  with values_sieve_order[OF L2] have vals: "fst ` set (sieve_order L) = {1..N ^ 2}" by simp
  have small: "length (sieve_order L) = N ^ 2 \<and> distinct (map fst (sieve_order L))
             \<and> (N = 1 \<longrightarrow> sieve_order L = [(1, ''C'')])" if "N \<le> 3"
  proof -
    from that assms(1) consider "N = 1" | "N = 2" | "N = 3" by arith
    then show ?thesis
    proof cases
      case 1
      then have "int L = 2" by (simp add: L_def)
      with closed primeSieve_2 have "sieve_order L = [(1, ''C'')]" by simp
      with 1 show ?thesis by simp
    next
      case 2
      then have "int L = 5" by (simp add: L_def)
      with closed primeSieve_5 have "sieve_order L = [(1, ''C''), (2, ''P''), (4, ''C''), (3, ''P'')]"
        by simp
      with 2 show ?thesis by simp
    next
      case 3
      then have "int L = 10" by (simp add: L_def)
      with closed primeSieve_10 have "sieve_order L
          = [(1, ''C''), (2, ''P''), (4, ''C''), (6, ''C''), (8, ''C''),
             (3, ''P''), (9, ''C''), (5, ''P''), (7, ''P'')]"
        by simp
      with 3 show ?thesis by simp
    qed
  qed
  have large: "N ^ 2 < length (sieve_order L) \<and> \<not> distinct (map fst (sieve_order L))" if "4 \<le> N"
  proof -
    from that have "4 ^ 2 \<le> N ^ 2" by (rule power_mono) simp
    then have "13 \<le> L" by (simp add: L_def)
    then have nd: "\<not> distinct (map fst (sieve_order L))" by (rule twelve_twice)
    from length_exceeds[OF L2 nd] nd show ?thesis by (simp add: L_def)
  qed
  have "N = 1 \<longrightarrow> N \<le> 3" by simp
  with closed vals small large show ?thesis unfolding L
    by (intro exI[of _ "sieve_order L"]) blast
qed

theorem primeSieve_covers_grid_witness:
  "(1::nat) \<le> 4 \<and> (4::nat) \<le> 18 \<and>
   (\<exists>sequence. primeSieve 17 = Inr sequence \<and> fst ` set sequence = {1..16}
      \<and> 16 < length sequence \<and> \<not> distinct (map fst sequence))"
  using primeSieve_covers_grid[of 4] by simp

text \<open>
  Claim C1 as first stated (exactly \<open>size\<^sup>2\<close> elements, no number twice) fails at size 4:
  12 is yielded by the pass of 2 and again by the pass of 3, and there are 17 elements.
\<close>

theorem primeSieve_repeats_counterexample:
  "primeSieve (4 ^ 2 + 1)
     = Inr [(1, ''C''), (2, ''P''), (4, ''C''), (6, ''C''), (8, ''C''), (10, ''C''),
            (12, ''C''), (14, ''C''), (16, ''C''), (3, ''P''), (9, ''C''), (12, ''C''),
            (15, ''C''), (5, ''P''), (7, ''P''), (11, ''P''), (13, ''P'')]
   \<and> length (projr (primeSieve (4 ^ 2 + 1))) \<noteq> 4 ^ 2
   \<and> \<not> distinct (map fst (projr (primeSieve (4 ^ 2 + 1))))"
  using primeSieve_17 by simp

text \<open>
  Claim C2, as amended. For limit 101 the first ten elements are 1C, 2P, 4C, 6C, 8C, 10C,
  12C, 14C, 16C, 18C; the pass of 2 ends with the 51st element, and the next ones are
  3P, 9C, 12C, 15C, 18C, 21C: every multiple of 3 from 9 on, those already yielded by the
  pass of 2 included. For every limit of at least 2, a number with a divisor other than 1
  and itself is never yielded as \<open>''P''\<close>, and its first appearance is inside the marking
  pass of its smallest divisor \<open>p \<ge> 2\<close>, with \<open>p\<^sup>2\<close> at most the number: after
  \<open>(p, ''P'')\<close> and a run of \<open>''C''\<close> elements, not when the outer scan reaches it.
\<close>

theorem primeSieve_emission_order:
  "(\<exists>sequence. primeSieve 101 = Inr sequence
      \<and> take 10 sequence = [(1, ''C''), (2, ''P''), (4, ''C''), (6, ''C''), (8, ''C''),
                            (10, ''C''), (12, ''C''), (14, ''C''), (16, ''C''), (18, ''C'')]
      \<and> take 51 sequence = (1, ''C'') # (2, ''P'') # map (\<lambda>k. (2 * k, ''C'')) [2..<51]
      \<and> take 6 (drop 51 sequence)
          = [(3, ''P''), (9, ''C''), (12, ''C''), (15, ''C''), (18, ''C''), (21, ''C'')])
   \<and> (2 \<le> LIMIT \<longrightarrow>
        (\<exists>sequence. primeSieve LIMIT = Inr sequence
           \<and> (\<forall>m. 2 \<le> m \<and> int m < LIMIT \<and> has_other_divisor m \<longrightarrow>
                 (m, ''P'') \<notin> set sequence
               \<and> (\<exists>p pre c1 post.
                     sequence = pre @ (p, ''P'') # map (\<lambda>x. (x, ''C'')) c1 @ (m, ''C'') # post
                   \<and> m \<notin> fst ` set pre \<and> m \<notin> set c1
                   \<and> p dvd m \<and> p * p \<le> m \<and> (\<forall>q. 2 \<le> q \<and> q dvd m \<longrightarrow> p \<le> q)))))"
proof
  from primeSieve_101_ok obtain sequence where s: "primeSieve 101 = Inr sequence"
    by (cases "primeSieve 101") simp_all
  then have pre: "take 57 sequence
     = (1, ''C'') # (2, ''P'') # map (\<lambda>k. (2 * k, ''C'')) [2..<51]
       @ [(3, ''P''), (9, ''C''), (12, ''C''), (15, ''C''), (18, ''C''), (21, ''C'')]"
    using primeSieve_101_prefix by simp
  have "take 10 sequence = take 10 (take 57 sequence)" by simp
  also have "\<dots> = [(1, ''C''), (2, ''P''), (4, ''C''), (6, ''C''), (8, ''C''),
                            (10, ''C''), (12, ''C''), (14, ''C''), (16, ''C''), (18, ''C'')]"
    unfolding pre by code_simp
  finally have a: "take 10 sequence = [(1, ''C''), (2, ''P''), (4, ''C''), (6, ''C''), (8, ''C''),
                            (10, ''C''), (12, ''C''), (14, ''C''), (16, ''C''), (18, ''C'')]" .
  have "take 51 sequence = take 51 (take 57 sequence)" by simp
  also have "\<dots> = (1, ''C'') # (2, ''P'') # map (\<lambda>k. (2 * k, ''C'')) [2..<51]"
    unfolding pre by simp
  finally have b: "take 51 sequence = (1, ''C'') # (2, ''P'') # map (\<lambda>k. (2 * k, ''C'')) [2..<51]" .
  have "take 6 (drop 51 sequence) = drop 51 (take 57 sequence)" by (simp add: drop_take)
  also have "\<dots> = [(3, ''P''), (9, ''C''), (12, ''C''), (15, ''C''), (18, ''C''), (21, ''C'')]"
    unfolding pre by simp
  finally have c: "take 6 (drop 51 sequence)
      = [(3, ''P''), (9, ''C''), (12, ''C''), (15, ''C''), (18, ''C''), (21, ''C'')]" .
  from s a b c show "\<exists>sequence. primeSieve 101 = Inr sequence
      \<and> take 10 sequence = [(1, ''C''), (2, ''P''), (4, ''C''), (6, ''C''), (8, ''C''),
                            (10, ''C''), (12, ''C''), (14, ''C''), (16, ''C''), (18, ''C'')]
      \<and> take 51 sequence = (1, ''C'') # (2, ''P'') # map (\<lambda>k. (2 * k, ''C'')) [2..<51]
      \<and> take 6 (drop 51 sequence)
          = [(3, ''P''), (9, ''C''), (12, ''C''), (15, ''C''), (18, ''C''), (21, ''C'')]"
    by blast
next
  show "2 \<le> LIMIT \<longrightarrow>
        (\<exists>sequence. primeSieve LIMIT = Inr sequence
           \<and> (\<forall>m. 2 \<le> m \<and> int m < LIMIT \<and> has_other_divisor m \<longrightarrow>
                 (m, ''P'') \<notin> set sequence
               \<and> (\<exists>p pre c1 post.
                     sequence = pre @ (p, ''P'') # map (\<lambda>x. (x, ''C'')) c1 @ (m, ''C'') # post
                   \<and> m \<notin> fst ` set pre \<and> m \<notin> set c1
                   \<and> p dvd m \<and> p * p \<le> m \<and> (\<forall>q. 2 \<le> q \<and> q dvd m \<longrightarrow> p \<le> q))))"
  proof
    assume L: "2 \<le> LIMIT"
    have "(m, ''P'') \<notin> set (sieve_order (nat LIMIT))
        \<and> (\<exists>p pre c1 post.
              sieve_order (nat LIMIT) = pre @ (p, ''P'') # map (\<lambda>x. (x, ''C'')) c1 @ (m, ''C'') # post
            \<and> m \<notin> fst ` set pre \<and> m \<notin> set c1
            \<and> p dvd m \<and> p * p \<le> m \<and> (\<forall>q. 2 \<le> q \<and> q dvd m \<longrightarrow> p \<le> q))"
      if m: "2 \<le> m \<and> int m < LIMIT \<and> has_other_divisor m" for m
    proof
      show "(m, ''P'') \<notin> set (sieve_order (nat LIMIT))"
      proof
        assume "(m, ''P'') \<in> set (sieve_order (nat LIMIT))"
        from tag_sieve_order(1)[OF this] m show False by simp
      qed
    next
      from m have "m < nat LIMIT" by linarith
      with m first_emission_of_composite[of m "nat LIMIT"]
      show "\<exists>p pre c1 post.
              sieve_order (nat LIMIT) = pre @ (p, ''P'') # map (\<lambda>x. (x, ''C'')) c1 @ (m, ''C'') # post
            \<and> m \<notin> fst ` set pre \<and> m \<notin> set c1
            \<and> p dvd m \<and> p * p \<le> m \<and> (\<forall>q. 2 \<le> q \<and> q dvd m \<longrightarrow> p \<le> q)"
        by blast
    qed
    with primeSieve_closed[OF L] show "\<exists>sequence. primeSieve LIMIT = Inr sequence
           \<and> (\<forall>m. 2 \<le> m \<and> int m < LIMIT \<and> has_other_divisor m \<longrightarrow>
                 (m, ''P'') \<notin> set sequence
               \<and> (\<exists>p pre c1 post.
                     sequence = pre @ (p, ''P'') # map (\<lambda>x. (x, ''C'')) c1 @ (m, ''C'') # post
                   \<and> m \<notin> fst ` set pre \<and> m \<notin> set c1
                   \<and> p dvd m \<and> p * p \<le> m \<and> (\<forall>q. 2 \<le> q \<and> q dvd m \<longrightarrow> p \<le> q)))"
      by blast
  qed
qed

theorem primeSieve_emission_order_witness:
  "(2::int) \<le> 17 \<and> (2::nat) \<le> 12 \<and> int 12 < 17 \<and> has_other_divisor 12
   \<and> (\<exists>sequence. primeSieve 17 = Inr sequence \<and> (12, ''P'') \<notin> set sequence
        \<and> (\<exists>p pre c1 post.
              sequence = pre @ (p, ''P'') # map (\<lambda>x. (x, ''C'')) c1 @ (12, ''C'') # post
            \<and> 12 \<notin> fst ` set pre \<and> 12 \<notin> set c1 \<and> p dvd 12 \<and> p * p \<le> 12))"
proof -
  have h: "has_other_divisor 12" by code_simp
  from primeSieve_emission_order[of 17] have
    "\<exists>sequence. primeSieve 17 = Inr sequence
           \<and> (\<forall>m. 2 \<le> m \<and> int m < 17 \<and> has_other_divisor m \<longrightarrow>
                 (m, ''P'') \<notin> set sequence
               \<and> (\<exists>p pre c1 post.
                     sequence = pre @ (p, ''P'') # map (\<lambda>x. (x, ''C'')) c1 @ (m, ''C'') # post
                   \<and> m \<notin> fst ` set pre \<and> m \<notin> set c1
                   \<and> p dvd m \<and> p * p \<le> m \<and> (\<forall>q. 2 \<le> q \<and> q dvd m \<longrightarrow> p \<le> q)))"
    by simp
  then obtain sequence where s: "primeSieve 17 = Inr sequence"
    and all: "\<forall>m. 2 \<le> m \<and> int m < 17 \<and> has_other_divisor m \<longrightarrow>
                 (m, ''P'') \<notin> set sequence
               \<and> (\<exists>p pre c1 post.
                     sequence = pre @ (p, ''P'') # map (\<lambda>x. (x, ''C'')) c1 @ (m, ''C'') # post
                   \<and> m \<notin> fst ` set pre \<and> m \<notin> set c1
                   \<and> p dvd m \<and> p * p \<le> m \<and> (\<forall>q. 2 \<le> q \<and> q dvd m \<longrightarrow> p \<le> q))"
    by blast
  from all[rule_format, of 12] h have
    "(12, ''P'') \<notin> set sequence
        \<and> (\<exists>p pre c1 post.
              sequence = pre @ (p, ''P'') # map (\<lambda>x. (x, ''C'')) c1 @ (12, ''C'') # post
            \<and> 12 \<notin> fst ` set pre \<and> 12 \<notin> set c1 \<and> p dvd 12 \<and> p * p \<le> 12)"
    by simp blast
  with s h show ?thesis by simp
qed

text \<open>
  Claim C2 as first stated (3P, 9C, 15C, 21C after the pass of 2) fails: the elements at
  positions 51 to 54 are 3P, 9C, 12C, 15C.
\<close>

theorem primeSieve_order_counterexample:
  "\<not> isl (primeSieve 101)
   \<and> take 4 (drop 51 (projr (primeSieve 101))) = [(3, ''P''), (9, ''C''), (12, ''C''), (15, ''C'')]
   \<and> take 4 (drop 51 (projr (primeSieve 101))) \<noteq> [(3, ''P''), (9, ''C''), (15, ''C''), (21, ''C'')]"
proof -
  have "take 4 (drop 51 (projr (primeSieve 101))) = take 4 (drop 51 (take 57 (projr (primeSieve 101))))"
    by (simp add: drop_take)
  also have "\<dots> = [(3, ''P''), (9, ''C''), (12, ''C''), (15, ''C'')]"
    unfolding primeSieve_101_prefix by simp
  finally show ?thesis using primeSieve_101_ok by simp
qed

text \<open>
  Claim C3. For every limit of at least 2, \<open>primeSieve\<close> returns a sequence, and every
  pair \<open>(v, kind)\<close> in it is classified correctly: the tag is \<open>''C''\<close> exactly when \<open>v\<close>
  is 1 or has a divisor other than 1 and itself, and \<open>''P''\<close> otherwise.
\<close>
theorem primeSieve_classification:
  assumes "2 \<le> LIMIT"
  shows "\<exists>sequence. primeSieve LIMIT = Inr sequence \<and>
           (\<forall>(v, kind) \<in> set sequence.
              (kind = ''C'') = (v = 1 \<or> (\<exists>d. d dvd v \<and> d \<noteq> 1 \<and> d \<noteq> v)) \<and>
              (kind \<noteq> ''C'' \<longrightarrow> kind = ''P''))"
proof -
  have "(kind = ''C'') = (v = 1 \<or> (\<exists>d. d dvd v \<and> d \<noteq> 1 \<and> d \<noteq> v)) \<and> (kind \<noteq> ''C'' \<longrightarrow> kind = ''P'')"
    if mem: "(v, kind) \<in> set (sieve_order (nat LIMIT))" for v kind
  proof -
    from assms have "2 \<le> nat LIMIT" by simp
    note vals = values_sieve_order[OF this]
    from mem have "fst (v, kind) \<in> fst ` set (sieve_order (nat LIMIT))" by (rule imageI)
    then have "v \<in> {1..<nat LIMIT}" unfolding vals by simp
    then have "0 < v" by simp
    from tag_sieve_order[OF mem] has_other_divisor_iff[OF this]
    show ?thesis by blast
  qed
  with primeSieve_closed[OF assms] show ?thesis by blast
qed

theorem primeSieve_classification_witness:
  "(2::int) \<le> 17 \<and> (\<exists>sequence. primeSieve 17 = Inr sequence \<and>
           (\<forall>(v, kind) \<in> set sequence.
              (kind = ''C'') = (v = 1 \<or> (\<exists>d. d dvd v \<and> d \<noteq> 1 \<and> d \<noteq> v)) \<and>
              (kind \<noteq> ''C'' \<longrightarrow> kind = ''P'')))"
  using primeSieve_classification[of 17] by simp

section \<open>Claims about the window\<close>

text \<open>
  Claim C4. From the state in which \<open>__init__\<close> or a size change leaves the window
  (index 0, all squares hidden), calling \<open>on_draw\<close> as many times as the data has
  elements raises no exception and ends in exactly that state again: index 0, all
  squares hidden, the same data.
\<close>
theorem on_draw_full_cycle:
  assumes "init_window = Inr w0
         \<or> (key_1 \<le> symbol \<and> symbol \<le> key_9 \<and> symbol - 39 \<noteq> int (gridN self)
            \<and> on_key_press self symbol = Inr w0)"
  shows "currentIndex w0 = 0 \<and> (\<forall>sq\<in>set (square_list w0). \<not> visible sq)
       \<and> on_draw_times (length (data w0)) w0 = Inr w0"
proof -
  from assms have s: "start_state w0"
    using init_window_start on_key_press_start by blast
  then have "currentIndex w0 = 0" "square_list w0 = hidden_squares (gridN w0)"
    by (simp_all add: start_state_def)
  with start_cycle[OF s] hidden_squares_hidden show ?thesis by auto
qed

theorem on_draw_full_cycle_witness:
  "init_window = Inr (projr init_window) \<and> length (data (projr init_window)) = 165
   \<and> currentIndex (projr init_window) = 0
   \<and> on_draw_times 165 (projr init_window) = Inr (projr init_window)"
  using on_draw_full_cycle[where ?w0.0 = "projr init_window"] init_window_facts(1,4)
  by simp

text \<open>
  Claim C5, as amended. When the index reaches the padding, every square is visible, red
  for the primes and light blue for the rest, and stays so at each of the 35 padding
  elements. Revealing a padding element changes no square, and each of the first 34
  padding ticks only advances the index. The 35th padding tick is the last element of
  the data: it ends the cycle, so after it the index is 0 and all squares are hidden.
\<close>
theorem pause_markers:
  assumes "init_window = Inr w0
         \<or> (key_1 \<le> symbol \<and> symbol \<le> key_9 \<and> symbol - 39 \<noteq> int (gridN self)
            \<and> on_key_press self symbol = Inr w0)"
  shows "\<exists>sequence. primeSieve (int (gridN w0) ^ 2 + 1) = Inr sequence
           \<and> data w0 = sequence @ replicate 35 (1, ''C'')
           \<and> (\<forall>k<35. \<exists>w. on_draw_times (length sequence + k) w0 = Inr w
                 \<and> currentIndex w = length sequence + k
                 \<and> data w ! currentIndex w = (1, ''C'')
                 \<and> square_list w = full_grid (gridN w0)
                 \<and> reveal w = Inr (square_list w)
                 \<and> (k < 34 \<longrightarrow> on_draw w = Inr (w\<lparr>currentIndex := currentIndex w + 1\<rparr>))
                 \<and> (k = 34 \<longrightarrow> on_draw w = Inr w0))
           \<and> length (full_grid (gridN w0)) = gridN w0 ^ 2
           \<and> (\<forall>sq\<in>set (full_grid (gridN w0)). visible sq)
           \<and> (\<forall>j<gridN w0 ^ 2. color (full_grid (gridN w0) ! j)
                                  = (if is_prime (j + 1) then RED else LIGHT_BLUE))
           \<and> (\<forall>sq\<in>set (square_list w0). \<not> visible sq)"
proof -
  let ?N = "gridN w0"
  let ?es = "sieve_order (?N ^ 2 + 1)"
  from assms have s: "start_state w0"
    using init_window_start on_key_press_start by blast
  then have N: "0 < ?N" and d: "data w0 = ?es @ replicate 35 (1, ''C'')"
    and sl: "square_list w0 = hidden_squares ?N"
    by (simp_all add: start_state_def PADDING_replicate)
  have seq: "primeSieve (int ?N ^ 2 + 1) = Inr ?es" by (rule primeSieve_grid[OF N])
  have ticks: "\<exists>w. on_draw_times (length ?es + k) w0 = Inr w
                 \<and> currentIndex w = length ?es + k
                 \<and> data w ! currentIndex w = (1, ''C'')
                 \<and> square_list w = full_grid ?N
                 \<and> reveal w = Inr (square_list w)
                 \<and> (k < 34 \<longrightarrow> on_draw w = Inr (w\<lparr>currentIndex := currentIndex w + 1\<rparr>))
                 \<and> (k = 34 \<longrightarrow> on_draw w = Inr w0)" if k: "k < 35" for k
  proof -
    let ?w = "w0\<lparr>square_list := full_grid ?N, currentIndex := length ?es + k\<rparr>"
    note t = pause_tick[OF s k]
    have "on_draw_times (length ?es + k) w0 = Inr ?w" by (rule t(1))
    moreover have "currentIndex ?w = length ?es + k" by simp
    moreover have "data ?w ! currentIndex ?w = (1, ''C'')" using t(2) by simp
    moreover have "square_list ?w = full_grid ?N" by simp
    moreover have "reveal ?w = Inr (square_list ?w)" using t(3) by simp
    moreover have "k < 34 \<longrightarrow> on_draw ?w = Inr (?w\<lparr>currentIndex := currentIndex ?w + 1\<rparr>)"
      using t(4) by simp
    moreover have "k = 34 \<longrightarrow> on_draw ?w = Inr w0" using t(5) by simp
    ultimately show ?thesis by blast
  qed
  have col: "color (full_grid ?N ! j) = (if is_prime (j + 1) then RED else LIGHT_BLUE)"
    if "j < ?N ^ 2" for j
    using nth_full_grid[OF that] by simp
  have hid: "\<forall>sq\<in>set (square_list w0). \<not> visible sq"
    unfolding sl using hidden_squares_hidden by blast
  from seq d ticks length_full_grid[of ?N] full_grid_visible col hid
  show ?thesis by (intro exI[of _ ?es]) blast
qed

theorem pause_markers_witness:
  "init_window = Inr (projr init_window)
   \<and> (\<exists>sequence w. primeSieve 101 = Inr sequence
         \<and> data (projr init_window) = sequence @ replicate 35 (1, ''C'')
         \<and> on_draw_times (length sequence + 33) (projr init_window) = Inr w
         \<and> square_list w = full_grid 10
         \<and> on_draw w = Inr (w\<lparr>currentIndex := currentIndex w + 1\<rparr>))"
proof -
  from pause_markers[where ?w0.0 = "projr init_window"] init_window_facts(1,3)
  obtain sequence where
    "primeSieve 101 = Inr sequence"
    "data (projr init_window) = sequence @ replicate 35 (1, ''C'')"
    "\<forall>k<35. \<exists>w. on_draw_times (length sequence + k) (projr init_window) = Inr w
                 \<and> currentIndex w = length sequence + k
                 \<and> data w ! currentIndex w = (1, ''C'')
                 \<and> square_list w = full_grid 10
                 \<and> reveal w = Inr (square_list w)
                 \<and> (k < 34 \<longrightarrow> on_draw w = Inr (w\<lparr>currentIndex := currentIndex w + 1\<rparr>))
                 \<and> (k = 34 \<longrightarrow> on_draw w = Inr (projr init_window))"
    by auto
  moreover from this(3) have "\<exists>w. on_draw_times (length sequence + 33) (projr init_window) = Inr w
                 \<and> square_list w = full_grid 10
                 \<and> on_draw w = Inr (w\<lparr>currentIndex := currentIndex w + 1\<rparr>)"
    by (auto dest!: spec[of _ 33])
  ultimately show ?thesis using init_window_facts(1) by blast
qed

text \<open>
  Claim C5 as first stated (each of the 35 padding ticks leaves the squares unchanged)
  fails at the last one: in the first window the sequence has 130 elements, all 100
  squares are visible before the tick at index 164, and none is after it.
\<close>

theorem last_pause_tick_counterexample:
  "init_window = Inr (projr init_window)
   \<and> length (data (projr init_window)) = 130 + 35
   \<and> data (projr init_window) ! (130 + 34) = (1, ''C'')
   \<and> on_draw_times (130 + 34) (projr init_window)
       = Inr (projr (on_draw_times (130 + 34) (projr init_window)))
   \<and> currentIndex (projr (on_draw_times (130 + 34) (projr init_window))) = 130 + 34
   \<and> map visible (square_list (projr (on_draw_times (130 + 34) (projr init_window))))
       = replicate 100 True
   \<and> on_draw (projr (on_draw_times (130 + 34) (projr init_window))) = Inr (projr init_window)
   \<and> map visible (square_list (projr init_window)) = replicate 100 False"
proof -
  let ?init = "projr init_window"
  note f = init_window_facts
  have k: "(34::nat) < 35" by simp
  note t = pause_tick[OF f(2) k, unfolded f(3)]
  have L: "length (sieve_order (10 ^ 2 + 1)) = 130" using length_sieve_order_101 by simp
  let ?w = "?init\<lparr>square_list := full_grid 10, currentIndex := 130 + 34\<rparr>"
  from t(1) have run: "on_draw_times (130 + 34) ?init = Inr ?w" unfolding L .
  from t(2) have nth: "data ?init ! (130 + 34) = (1, ''C'')" unfolding L .
  from t(5) have last: "on_draw ?w = Inr ?init" unfolding L by simp
  have vis: "map visible (full_grid 10) = replicate 100 True"
    using visible_full_grid[of 10] by simp
  from f(2) have "square_list ?init = hidden_squares 10"
    by (simp add: start_state_def f(3))
  then have hid: "map visible (square_list ?init) = replicate 100 False"
    using visible_hidden_squares[of 10] by simp
  have len: "length (data ?init) = 130 + 35" using f(4) by simp
  have r1: "on_draw_times (130 + 34) ?init = Inr (projr (on_draw_times (130 + 34) ?init))"
    unfolding run by simp
  have r2: "currentIndex (projr (on_draw_times (130 + 34) ?init)) = 130 + 34"
    unfolding run by simp
  have r3: "map visible (square_list (projr (on_draw_times (130 + 34) ?init))) = replicate 100 True"
    unfolding run using vis by simp
  have r4: "on_draw (projr (on_draw_times (130 + 34) ?init)) = Inr ?init"
    unfolding run using last by simp
  from f(1) len nth r1 r2 r3 r4 hid show ?thesis by blast
qed

text \<open>
  Claim C6. A digit key whose size \<open>int(symbol) - 39\<close> equals the current \<open>N\<close> changes
  nothing: the window after \<open>on_key_press\<close> is the window before, with the same index,
  squares and sequence.
\<close>
theorem on_key_press_same_size:
  assumes "key_1 \<le> symbol" "symbol \<le> key_9" "symbol - 39 = int (gridN self)"
  shows "on_key_press self symbol = Inr self"
proof -
  from assms(1,2) have "symbol \<noteq> key_Q" by (simp add: key_9_def key_Q_def)
  with assms(3) show ?thesis by (simp add: on_key_press_def)
qed

theorem on_key_press_same_size_witness:
  "key_1 \<le> digit_key 3 \<and> digit_key 3 \<le> key_9
   \<and> digit_key 3 - 39 = int (gridN \<lparr>gridN = 12, square_coords = Map.empty, data = [(1, ''C''), (2, ''P'')],
          square_list = [], currentIndex = 1, closed = False\<rparr>)
   \<and> on_key_press \<lparr>gridN = 12, square_coords = Map.empty, data = [(1, ''C''), (2, ''P'')],
          square_list = [], currentIndex = 1, closed = False\<rparr> (digit_key 3)
       = Inr \<lparr>gridN = 12, square_coords = Map.empty, data = [(1, ''C''), (2, ''P'')],
          square_list = [], currentIndex = 1, closed = False\<rparr>"
  using on_key_press_same_size[of "digit_key 3" "\<lparr>gridN = 12, square_coords = Map.empty,
          data = [(1, ''C''), (2, ''P'')], square_list = [], currentIndex = 1, closed = False\<rparr>"]
  by (simp add: key_1_def key_9_def digit_key_def)

text \<open>
  Claim C7. The key of digit \<open>d\<close> from 1 to 9 lies in the range that \<open>on_key_press\<close>
  accepts and stands for size \<open>d + 9\<close>, so the sizes range over 10 to 18: every size a key
  press sets is one of them and each of them is set by a digit. When that size differs
  from the current one, the window gets the new size, the sequence of
  \<open>primeSieve(size\<^sup>2 + 1)\<close> followed by 35 padding elements, index 0, and a fresh list of
  \<open>size\<^sup>2\<close> hidden squares.
\<close>
theorem on_key_press_digit:
  assumes "1 \<le> d" "d \<le> 9"
  shows "key_1 \<le> digit_key d \<and> digit_key d \<le> key_9
       \<and> nat (digit_key d - 39) = d + 9 \<and> 10 \<le> d + 9 \<and> d + 9 \<le> 18
       \<and> (\<lambda>d. nat (digit_key d - 39)) ` {1..9} = {10..18}
       \<and> (\<forall>symbol self'. on_key_press self symbol = Inr self' \<longrightarrow>
              gridN self' = gridN self \<or> gridN self' \<in> {10..18})
       \<and> (gridN self \<noteq> d + 9 \<longrightarrow>
            (\<exists>coords squares sequence.
               on_key_press self (digit_key d)
                 = Inr (self\<lparr>gridN := d + 9, square_coords := coords, square_list := squares,
                             currentIndex := 0,
                             data := sequence @ replicate 35 (1, ''C'')\<rparr>)
             \<and> primeSieve (int (d + 9) ^ 2 + 1) = Inr sequence
             \<and> drawSquares [] (d + 9) coords = Inr squares
             \<and> length squares = (d + 9) ^ 2
             \<and> (\<forall>sq\<in>set squares. \<not> visible sq)))"
proof -
  from assms have k: "key_1 \<le> digit_key d" "digit_key d \<le> key_9"
    and n: "nat (digit_key d - 39) = d + 9"
    by (simp_all add: key_1_def key_9_def digit_key_def)
  have "\<exists>coords squares sequence.
               on_key_press self (digit_key d)
                 = Inr (self\<lparr>gridN := d + 9, square_coords := coords, square_list := squares,
                             currentIndex := 0,
                             data := sequence @ replicate 35 (1, ''C'')\<rparr>)
             \<and> primeSieve (int (d + 9) ^ 2 + 1) = Inr sequence
             \<and> drawSquares [] (d + 9) coords = Inr squares
             \<and> length squares = (d + 9) ^ 2
             \<and> (\<forall>sq\<in>set squares. \<not> visible sq)"
    if "gridN self \<noteq> d + 9"
  proof -
    from that have "digit_key d - 39 \<noteq> int (gridN self)" by (simp add: digit_key_def)
    from on_key_press_resize[OF k this] obtain coords where
      eq: "on_key_press self (digit_key d)
             = Inr (self\<lparr>gridN := d + 9, square_coords := coords,
                         square_list := hidden_squares (d + 9), currentIndex := 0,
                         data := sieve_order ((d + 9) ^ 2 + 1) @ PADDING\<rparr>)"
      and c: "drawNumbers (d + 9) = Inr coords"
      unfolding n by blast
    have "primeSieve (int (d + 9) ^ 2 + 1) = Inr (sieve_order ((d + 9) ^ 2 + 1))"
      by (rule primeSieve_grid) simp
    moreover have "PADDING = replicate 35 (1, ''C'')"
      by (simp add: PADDING_def TIME_AFTER_COMPLETION_def)
    moreover note eq drawSquares_result[OF c] length_hidden_squares[of "d + 9"]
    moreover have "\<forall>sq\<in>set (hidden_squares (d + 9)). \<not> visible sq"
      using hidden_squares_hidden by blast
    ultimately show ?thesis by (simp only:) blast
  qed
  moreover have "(\<lambda>d. nat (digit_key d - 39)) ` {1..9} = {10..18}"
  proof -
    have f: "(\<lambda>d. nat (digit_key d - 39)) = (\<lambda>d. d + 9)"
      by (rule ext) (simp add: digit_key_def)
    have "(\<lambda>d::nat. d + 9) ` {1..9} = {1 + 9..9 + 9}"
      by (rule image_add_atLeastAtMost')
    also have "\<dots> = {10..18}" by simp
    finally show ?thesis unfolding f .
  qed
  moreover have "gridN self' = gridN self \<or> gridN self' \<in> {10..18}"
    if "on_key_press self symbol = Inr self'" for symbol self'
  proof (cases "key_1 \<le> symbol \<and> symbol \<le> key_9 \<and> symbol - 39 \<noteq> int (gridN self)")
    case True
    then have "49 \<le> symbol" "symbol \<le> 57"
      by (simp_all add: key_1_def key_9_def)
    then have "10 \<le> nat (symbol - 39)" "nat (symbol - 39) \<le> 18"
      by linarith+
    moreover from True on_key_press_resize[of symbol self] that
    have "gridN self' = nat (symbol - 39)" by auto
    ultimately show ?thesis by simp
  next
    case False
    with that have "self' = (if symbol = key_Q then self\<lparr>closed := True\<rparr> else self)"
      by (auto simp: on_key_press_def Let_def split: if_splits)
    then show ?thesis by simp
  qed
  moreover from assms have "10 \<le> d + 9" "d + 9 \<le> 18" by simp_all
  ultimately show ?thesis using k n by blast
qed

theorem on_key_press_digit_witness:
  "(1::nat) \<le> 2 \<and> (2::nat) \<le> 9 \<and> nat (digit_key 2 - 39) = 11
   \<and> gridN \<lparr>gridN = 10, square_coords = Map.empty, data = [], square_list = [],
             currentIndex = 0, closed = False\<rparr> \<noteq> 2 + 9
   \<and> (\<exists>coords squares sequence.
         on_key_press \<lparr>gridN = 10, square_coords = Map.empty, data = [], square_list = [],
                       currentIndex = 0, closed = False\<rparr> (digit_key 2)
           = Inr \<lparr>gridN = 11, square_coords = coords, data = sequence @ replicate 35 (1, ''C''),
                  square_list = squares, currentIndex = 0, closed = False\<rparr>
       \<and> primeSieve 122 = Inr sequence \<and> length squares = 121)"
  using on_key_press_digit[of 2 "\<lparr>gridN = 10, square_coords = Map.empty, data = [], square_list = [],
             currentIndex = 0, closed = False\<rparr>"]
  by simp blast

text \<open>
  Claim C8. \<open>drawNumbers\<close> lays the numbers out row by row: the number \<open>v\<close> from 1 to
  \<open>N\<^sup>2\<close> is in row \<open>(v - 1) div N\<close> and column \<open>(v - 1) mod N\<close> (the stored pair is
  column first, so it is swapped here). For \<open>N = 10\<close>: 1 is at (0, 0), 10 at (0, 9), 11
  at (1, 0) and 100 at (9, 9).
\<close>
theorem drawNumbers_row_major:
  "(0 < N \<and> 1 \<le> v \<and> v \<le> N ^ 2 \<longrightarrow>
      (\<exists>info. drawNumbers N = Inr info
         \<and> map_option prod.swap (info v) = Some ((v - 1) div N, (v - 1) mod N)))
   \<and> (\<exists>info. drawNumbers 10 = Inr info
         \<and> map_option prod.swap (info 1) = Some (0, 0)
         \<and> map_option prod.swap (info 10) = Some (0, 9)
         \<and> map_option prod.swap (info 11) = Some (1, 0)
         \<and> map_option prod.swap (info 100) = Some (9, 9))"
proof
  show "0 < N \<and> 1 \<le> v \<and> v \<le> N ^ 2 \<longrightarrow>
      (\<exists>info. drawNumbers N = Inr info
         \<and> map_option prod.swap (info v) = Some ((v - 1) div N, (v - 1) mod N))"
  proof
    assume a: "0 < N \<and> 1 \<le> v \<and> v \<le> N ^ 2"
    then have "0 < N" by simp
    from drawNumbers_result[OF this] obtain info where
      "drawNumbers N = Inr info"
      "\<forall>v. info v = (if 1 \<le> v \<and> v \<le> N ^ 2 then Some ((v - 1) mod N, (v - 1) div N) else None)"
      by blast
    with a show "\<exists>info. drawNumbers N = Inr info
         \<and> map_option prod.swap (info v) = Some ((v - 1) div N, (v - 1) mod N)"
      by (intro exI[of _ info]) simp
  qed
next
  from drawNumbers_result[of 10] obtain info where
    i: "drawNumbers 10 = Inr info"
    "\<forall>v. info v = (if 1 \<le> v \<and> v \<le> 10 ^ 2 then Some ((v - 1) mod 10, (v - 1) div 10) else None)"
    by auto
  from i(2) have "map_option prod.swap (info 1) = Some (0, 0)"
    "map_option prod.swap (info 10) = Some (0, 9)"
    "map_option prod.swap (info 11) = Some (1, 0)"
    "map_option prod.swap (info 100) = Some (9, 9)"
    by simp_all
  with i(1) show "\<exists>info. drawNumbers 10 = Inr info
         \<and> map_option prod.swap (info 1) = Some (0, 0)
         \<and> map_option prod.swap (info 10) = Some (0, 9)
         \<and> map_option prod.swap (info 11) = Some (1, 0)
         \<and> map_option prod.swap (info 100) = Some (9, 9)"
    by blast
qed

theorem drawNumbers_row_major_witness:
  "(0::nat) < 12 \<and> (1::nat) \<le> 30 \<and> (30::nat) \<le> 12 ^ 2
   \<and> (\<exists>info. drawNumbers 12 = Inr info \<and> map_option prod.swap (info 30) = Some (2, 5))"
  using drawNumbers_row_major[of 12 30] by simp

text \<open>
  Claim C9. The driver clamps and never rejects: the frame rate is
  \<open>min(max(10, input), 40)\<close> with default 12 and the window dimension is
  \<open>min(max(800, input), 2000)\<close> with default 800, so both are always within their ranges.
\<close>
theorem launch_clamps:
  "launch frame_rate dimensions
     = (min (max 800 (case dimensions of None \<Rightarrow> 800 | Some d \<Rightarrow> d)) 2000,
        min (max 10 (case frame_rate of None \<Rightarrow> 12 | Some f \<Rightarrow> f)) 40)
   \<and> 800 \<le> fst (launch frame_rate dimensions) \<and> fst (launch frame_rate dimensions) \<le> 2000
   \<and> 10 \<le> snd (launch frame_rate dimensions) \<and> snd (launch frame_rate dimensions) \<le> 40
   \<and> launch None None = (800, 12)"
  by (simp add: launch_def Let_def)

theorem launch_clamps_witness:
  "launch (Some 5) (Some 5000) = (2000, 10) \<and> launch (Some 1000) (Some (- 3)) = (800, 40)
   \<and> launch (Some 25) (Some 1200) = (1200, 25)"
  using launch_clamps[of "Some 5" "Some 5000"] launch_clamps[of "Some 1000" "Some (- 3)"]
    launch_clamps[of "Some 25" "Some 1200"]
  by simp

text \<open>
  Claim C10. For every limit of at least 2, the numbers that \<open>primeSieve\<close> yields with
  tag \<open>''P''\<close> are, in the order of the sequence, exactly the primes from 2 to the limit
  minus one in strictly ascending order, each yielded once.
\<close>
theorem primeSieve_primes_ascending:
  assumes "2 \<le> LIMIT"
  shows "\<exists>sequence. primeSieve LIMIT = Inr sequence \<and>
           map fst (filter (\<lambda>e. snd e = ''P'') sequence) = filter is_prime [2..<nat LIMIT] \<and>
           sorted_wrt (<) (map fst (filter (\<lambda>e. snd e = ''P'') sequence)) \<and>
           distinct (filter (\<lambda>e. snd e = ''P'') sequence) \<and>
           (\<forall>p. ((p, ''P'') \<in> set sequence) = (is_prime p \<and> 2 \<le> p \<and> int p \<le> LIMIT - 1))"
proof -
  let ?es = "sieve_order (nat LIMIT)"
  have eq: "map fst (filter (\<lambda>e. snd e = ''P'') ?es) = filter is_prime [2..<nat LIMIT]"
    by (rule primes_of_sieve_order)
  have "sorted_wrt (<) (filter is_prime [2..<nat LIMIT])"
    by (intro sorted_wrt_filter) simp
  then have sorted: "sorted_wrt (<) (map fst (filter (\<lambda>e. snd e = ''P'') ?es))"
    by (simp only: eq)
  then have "distinct (map fst (filter (\<lambda>e. snd e = ''P'') ?es))"
    by (simp add: strict_sorted_iff)
  then have dist: "distinct (filter (\<lambda>e. snd e = ''P'') ?es)"
    by (simp add: distinct_map)
  have mem: "((p, ''P'') \<in> set ?es) = (is_prime p \<and> 2 \<le> p \<and> int p \<le> LIMIT - 1)" for p
    using assms by (auto simp: set_sieve_order dest: is_prime_ge2)
  from primeSieve_closed[OF assms] eq sorted dist mem show ?thesis by blast
qed

theorem primeSieve_primes_ascending_witness:
  "(2::int) \<le> 17 \<and> (\<exists>sequence. primeSieve 17 = Inr sequence \<and>
           map fst (filter (\<lambda>e. snd e = ''P'') sequence) = [2, 3, 5, 7, 11, 13])"
proof -
  have "filter is_prime [2..<nat 17] = [2, 3, 5, 7, 11, 13]" by code_simp
  with primeSieve_primes_ascending[of 17] show ?thesis by auto
qed

end
